theory Spec2Isabelle
  imports Main "HOL-Library.Word" "HOL-Library.AList"
begin

text \<open>
  A model of the fault-tolerance core of the polaris-go client: the resource health
  checker of the composite circuit breaker (package \<open>composite\<close>; its text is the
  second part of the source file \<open>plugin/ratelimiter/bbr/cpu/stat.go\<close>, and the
  line numbers quoted below as "health checker" are lines of that file) and the status
  change list of the service-info reporter (package \<open>serviceinfo\<close>, the source file
  \<open>unnamed/part_003\<close>, quoted as "status list source").
\<close>

section \<open>Strings\<close>

text \<open>
  Go strings are byte sequences; they are modelled as \<open>string\<close> (a list of 8-bit
  characters). \<open>strings.ToLower\<close> is modelled on ASCII: the letters A to Z are mapped to
  a to z and every other byte is kept. (Go also lower-cases letters outside ASCII; no
  protocol name handled below contains one.)
\<close>

definition toLower_char :: "char \<Rightarrow> char" where
  "toLower_char c =
     (let n = (of_char c :: nat) in if 65 \<le> n \<and> n \<le> 90 then char_of (n + 32) else c)"

definition toLower :: "string \<Rightarrow> string" where
  "toLower s = map toLower_char s"

text \<open>\<open>strings.HasPrefix\<close> and \<open>strings.HasSuffix\<close>, as the Go library writes them:
  a length test and a comparison of the slice at the start or at the end.\<close>

definition hasPrefix :: "string \<Rightarrow> string \<Rightarrow> bool" where
  "hasPrefix s p = (length p \<le> length s \<and> take (length p) s = p)"

definition hasSuffix :: "string \<Rightarrow> string \<Rightarrow> bool" where
  "hasSuffix s x = (length x \<le> length s \<and> drop (length s - length x) s = x)"

section \<open>Protocols\<close>

text \<open>
  Modelled from the spec: the enumeration \<open>fault_tolerance.FaultDetectRule_Protocol\<close>,
  which is declared outside the source files, with the four protocols of the spec's
  data model and the names its \<open>String()\<close> method prints.
\<close>

datatype Protocol = UNKNOWN | HTTP | TCP | UDP

fun Protocol_String :: "Protocol \<Rightarrow> string" where
  "Protocol_String UNKNOWN = ''UNKNOWN''"
| "Protocol_String HTTP = ''HTTP''"
| "Protocol_String TCP = ''TCP''"
| "Protocol_String UDP = ''UDP''"

text \<open>
  \<open>parseProtocol\<close> (health checker, lines 443 to 455): the advertised protocol string
  of an instance, lower-cased, is tested against http, udp and tcp in this order; each
  test accepts the bare name, the name followed by a slash at the start, and the name
  preceded by a slash at the end.
\<close>

definition parseProtocol :: "string \<Rightarrow> Protocol" where
  "parseProtocol s0 =
     (let s = toLower s0 in
      if s = ''http'' \<or> hasPrefix s ''http/'' \<or> hasSuffix s ''/http'' then HTTP
      else if s = ''udp'' \<or> hasPrefix s ''udp/'' \<or> hasSuffix s ''/udp'' then UDP
      else if s = ''tcp'' \<or> hasPrefix s ''tcp/'' \<or> hasSuffix s ''/tcp'' then TCP
      else UNKNOWN)"

section \<open>Circuit-breaker status changes\<close>

text \<open>
  Modelled from the spec: \<open>model.Status\<close> and the interface
  \<open>model.CircuitBreakerStatus\<close>, which are declared in the package \<open>pkg/model\<close>
  outside the source files. The states are the three of the spec's data model, which
  are the three the function below switches on (its switch has no default branch). Of
  the interface the two getters the function calls are kept. An interface value may be
  nil: both arguments of the function are options.
\<close>

datatype Status = Open | HalfOpen | Close

record CircuitBreakerStatus =
  cbStatus :: Status
  cbName :: string

text \<open>
  Modelled from the spec: the enumeration \<open>monitorpb.StatusChange\<close>, declared outside
  the source files, with the four changes the spec names;
  \<open>StatusChange_Unknown\<close> is the zero value a new node holds.
\<close>

datatype StatusChange =
  StatusChange_Unknown | CloseToOpen | OpenToHalfOpen | HalfOpenToClose | HalfOpenToOpen

record circuitBreakNode =
  status :: StatusChange
  reason :: string

datatype error = NilDereference | InvalidPreStatus

text \<open>
  \<open>createCircuitBreakNode\<close> (status list source, lines 100 to 128). The node is
  allocated first and its reason is read from \<open>current\<close>, which panics on a nil
  \<open>current\<close>. Every \<open>fmt.Errorf\<close> return is the error \<open>InvalidPreStatus\<close>, and
  returns no node.
\<close>

definition createCircuitBreakNode ::
  "CircuitBreakerStatus option \<Rightarrow> CircuitBreakerStatus option \<Rightarrow> error + circuitBreakNode"
where
  "createCircuitBreakNode pre current =
     (case current of
        None \<Rightarrow> Inl NilDereference
      | Some cur \<Rightarrow>
          (let res = \<lparr>status = StatusChange_Unknown, reason = cbName cur\<rparr> in
           case cbStatus cur of
             Open \<Rightarrow>
               (case pre of
                  None \<Rightarrow> Inr (res\<lparr>status := CloseToOpen\<rparr>)
                | Some p \<Rightarrow>
                    if cbStatus p = HalfOpen then Inr (res\<lparr>status := HalfOpenToOpen\<rparr>)
                    else if cbStatus p = Close then Inr (res\<lparr>status := CloseToOpen\<rparr>)
                    else Inl InvalidPreStatus)
           | HalfOpen \<Rightarrow>
               (case pre of
                  Some p \<Rightarrow>
                    if cbStatus p = Open then Inr (res\<lparr>status := OpenToHalfOpen\<rparr>)
                    else Inl InvalidPreStatus
                | None \<Rightarrow> Inl InvalidPreStatus)
           | Close \<Rightarrow>
               (case pre of
                  Some p \<Rightarrow>
                    if cbStatus p = HalfOpen then Inr (res\<lparr>status := HalfOpenToClose\<rparr>)
                    else Inl InvalidPreStatus
                | None \<Rightarrow> Inl InvalidPreStatus)))"

section \<open>The instance registry of a resource health checker\<close>

text \<open>
  Modelled from the spec: the types of the package \<open>pkg/model\<close> that the checker
  reads (service keys, nodes, the three kinds of resource), which are declared outside
  the source files, each with the fields the code below reads. \<open>uint32\<close> is
  \<open>32 word\<close>, and \<open>int64\<close> is \<open>64 word\<close>, read as a signed value with \<open>sint\<close>.
  A pointer to a service key may be nil.
\<close>

record ServiceKey =
  Namespace :: string
  Service :: string

record Node =
  Host :: string
  Port :: "32 word"

record InstanceResource =
  resService :: "ServiceKey option"
  resNode :: Node
  resProtocol :: string

datatype Resource =
  ServiceResource "ServiceKey option"
| MethodResource "ServiceKey option" string
| InstanceRes InstanceResource

text \<open>
  Modelled from the spec: a probe target, as \<open>pb.NewInstanceInProto\<close> builds it from
  a host, a port and a service key; the result of a probe (code, delay, status); and the
  \<open>ResourceStat\<close> handed to the circuit breaker.
\<close>

record Instance =
  insService :: ServiceKey
  insHost :: string
  insPort :: "32 word"

datatype RetStatus = RetSuccess | RetFail | RetTimeout

record DetectResult =
  detCode :: string
  detDelay :: "64 word"
  detRetStatus :: RetStatus

record ResourceStat =
  statResource :: Resource
  RetCode :: string
  Delay :: "64 word"
  statRetStatus :: RetStatus

text \<open>
  Modelled from the spec: a health-check plugin (\<open>healthcheck.HealthChecker\<close>) is its
  \<open>DetectInstance\<close>, from a probe target to an error or a result.
\<close>

datatype probe_error = ProbeError string

type_synonym HealthChecker = "Instance \<Rightarrow> probe_error + DetectResult"

text \<open>\<open>ProtocolInstance\<close> (health checker, lines 416 to 421).\<close>

record ProtocolInstance =
  protocol :: Protocol
  insRes :: InstanceResource
  lastReportMilli :: "64 word"
  checkSuccess :: "32 word"

text \<open>
  Modelled from the spec: a fault-detect rule and the target service it names (protobuf
  messages declared outside the source files), with the attributes of the spec's data
  model. The getters used on them are nil-safe; a nil target service, a nil method and a
  nil method value are \<open>None\<close>.
\<close>

record MatchString =
  msValue :: "string option"

record DestinationService =
  dsNamespace :: string
  dsService :: string
  dsMethod :: "MatchString option"

record FaultDetectRule =
  ruleName :: string
  ruleTargetService :: "DestinationService option"
  ruleInterval :: "32 word"
  ruleProtocol :: Protocol
  rulePort :: "32 word"

text \<open>
  \<open>ResourceHealthChecker\<close> (health checker, lines 127 to 145), with the fields the
  functions below use. The Go map \<open>instances\<close> is an association list: its order is
  the order in which \<open>range\<close> visits the entries, which Go leaves open, so no theorem
  below depends on it. The keys of a Go map are distinct; the theorems that need it
  assume it of the list.
\<close>

record ResourceHealthChecker =
  resource :: Resource
  healthCheckers :: "string \<rightharpoonup> HealthChecker"
  instances :: "(string \<times> ProtocolInstance) list"
  instanceExpireIntervalMill :: "64 word"

text \<open>
  The calls a probe tick makes are kept as traces, each kind in call order: the calls
  of \<open>doCheck\<close> with the target and the protocol passed, the calls of a plugin's
  \<open>DetectInstance\<close> with the target, and the calls of \<open>circuitBreaker.Report\<close> with
  the stat.
\<close>

record effects =
  checked :: "(Instance \<times> Protocol) list"
  detected :: "Instance list"
  reported :: "ResourceStat list"

definition noEffects :: effects where
  "noEffects = \<lparr>checked = [], detected = [], reported = []\<rparr>"

text \<open>The accessors of a \<open>ProtocolInstance\<close> (health checker, lines 423 to 441).\<close>

definition getLastReportMilli :: "ProtocolInstance \<Rightarrow> 64 word" where
  "getLastReportMilli p = lastReportMilli p"

definition isCheckSuccess :: "ProtocolInstance \<Rightarrow> bool" where
  "isCheckSuccess p = (checkSuccess p = 1)"

definition setCheckResult :: "bool \<Rightarrow> ProtocolInstance \<Rightarrow> ProtocolInstance" where
  "setCheckResult v p = (if v then p\<lparr>checkSuccess := 1\<rparr> else p\<lparr>checkSuccess := 0\<rparr>)"

text \<open>\<open>doReport\<close> stores the clock reading \<open>now\<close>.\<close>

definition doReport :: "64 word \<Rightarrow> ProtocolInstance \<Rightarrow> ProtocolInstance" where
  "doReport now p = p\<lparr>lastReportMilli := now\<rparr>"

definition defaultServiceKey :: "ServiceKey option \<Rightarrow> ServiceKey" where
  "defaultServiceKey v =
     (case v of None \<Rightarrow> \<lparr>Namespace = [], Service = []\<rparr> | Some k \<Rightarrow> k)"

subsection \<open>addInstance\<close>

text \<open>
  \<open>addInstance\<close> (health checker, lines 317 to 332), with the node's \<open>String()\<close>
  (the map key, of \<open>pkg/model\<close>) as the parameter \<open>nodeString\<close> and the clock
  reading of the call as \<open>now\<close>. A new entry is put at the end of the list.
\<close>

definition addInstance ::
  "(Node \<Rightarrow> string) \<Rightarrow> 64 word \<Rightarrow> InstanceResource \<Rightarrow> bool \<Rightarrow>
   ResourceHealthChecker \<Rightarrow> ResourceHealthChecker"
where
  "addInstance nodeString now res record c =
     (case map_of (instances c) (nodeString (resNode res)) of
        None \<Rightarrow>
          c\<lparr>instances := instances c @
               [(nodeString (resNode res),
                 \<lparr>protocol = parseProtocol (resProtocol res), insRes = res,
                  lastReportMilli = now, checkSuccess = 0\<rparr>)]\<rparr>
      | Some saveIns \<Rightarrow>
          if record
          then c\<lparr>instances :=
                   AList.map_entry (nodeString (resNode res)) (doReport now) (instances c)\<rparr>
          else c)"

subsection \<open>cleanInstances\<close>

text \<open>
  \<open>cleanInstances\<close> (health checker, lines 222 to 249), called at the clock reading
  \<open>curTimeMill\<close>. Its first loop collects the keys to delete, in visiting order; the
  age is an \<open>int64\<close> difference and the comparison is signed.
\<close>

fun collectExpired ::
  "64 word \<Rightarrow> 64 word \<Rightarrow> (string \<times> ProtocolInstance) list \<Rightarrow> string list \<Rightarrow> string list"
where
  "collectExpired curTimeMill expireIntervalMill [] waitDel = waitDel"
| "collectExpired curTimeMill expireIntervalMill ((k, v) # rest) waitDel =
     (if isCheckSuccess v then collectExpired curTimeMill expireIntervalMill rest waitDel
      else if sint expireIntervalMill \<le> sint (curTimeMill - getLastReportMilli v)
      then collectExpired curTimeMill expireIntervalMill rest (waitDel @ [k])
      else collectExpired curTimeMill expireIntervalMill rest waitDel)"

text \<open>The second loop: \<open>delete\<close> for every collected key.\<close>

fun deleteAll :: "string list \<Rightarrow> (string \<times> ProtocolInstance) list \<Rightarrow> (string \<times> ProtocolInstance) list"
where
  "deleteAll [] m = m"
| "deleteAll (k # ks) m = deleteAll ks (AList.delete k m)"

definition cleanInstances :: "64 word \<Rightarrow> ResourceHealthChecker \<Rightarrow> ResourceHealthChecker" where
  "cleanInstances curTimeMill c =
     (let expireIntervalMill = instanceExpireIntervalMill c;
          waitDel = collectExpired curTimeMill expireIntervalMill (instances c) []
      in c\<lparr>instances := deleteAll waitDel (instances c)\<rparr>)"

subsection \<open>doCheck and checkResource\<close>

text \<open>\<open>doCheck\<close> (health checker, lines 296 to 315). The rule is passed and not
  read.\<close>

definition doCheck ::
  "ResourceHealthChecker \<Rightarrow> Instance \<Rightarrow> Protocol \<Rightarrow> FaultDetectRule \<Rightarrow> effects \<Rightarrow>
   bool \<times> effects"
where
  "doCheck c ins proto rule e0 =
     (let e = e0\<lparr>checked := checked e0 @ [(ins, proto)]\<rparr> in
      case healthCheckers c (toLower (Protocol_String proto)) of
        None \<Rightarrow> (False, e)
      | Some checker \<Rightarrow>
          (let e1 = e\<lparr>detected := detected e @ [ins]\<rparr> in
           case checker ins of
             Inl err \<Rightarrow> (False, e1)
           | Inr ret \<Rightarrow>
               (let stat = \<lparr>statResource = resource c, RetCode = detCode ret,
                            Delay = detDelay ret, statRetStatus = detRetStatus ret\<rparr>;
                    e2 = e1\<lparr>reported := reported e1 @ [stat]\<rparr>
                in (statRetStatus stat = RetSuccess, e2))))"

text \<open>The probe target both loops of \<open>checkResource\<close> build for an entry.\<close>

definition probeTarget :: "ProtocolInstance \<Rightarrow> Instance" where
  "probeTarget v =
     \<lparr>insService = defaultServiceKey (resService (insRes v)),
      insHost = Host (resNode (insRes v)),
      insPort = Port (resNode (insRes v))\<rparr>"

text \<open>
  \<open>checkResource\<close> (health checker, lines 260 to 294). The loop of its branch
  \<open>port > 0\<close> runs over the entries still to visit, with the set \<open>hosts\<close> of the
  keys seen. \<open>setCheckResult\<close> writes through the pointer held by the map: the entry
  under the key is replaced.
\<close>

fun checkLoopPort ::
  "FaultDetectRule \<Rightarrow> (string \<times> ProtocolInstance) list \<Rightarrow> string list \<Rightarrow>
   ResourceHealthChecker \<times> effects \<Rightarrow> ResourceHealthChecker \<times> effects"
where
  "checkLoopPort rule [] hosts (c, e) = (c, e)"
| "checkLoopPort rule ((k, v) # rest) hosts (c, e) =
     (if k \<in> set hosts then checkLoopPort rule rest hosts (c, e)
      else
        (let ins = probeTarget v;
             (isSuccess, e1) = doCheck c ins (protocol v) rule e;
             c1 = c\<lparr>instances := AList.map_entry k (setCheckResult isSuccess) (instances c)\<rparr>
         in checkLoopPort rule rest (k # hosts) (c1, e1)))"

text \<open>The loop of the other branch, which skips an entry whose protocol is neither
  UNKNOWN nor the protocol of the job.\<close>

fun checkLoop ::
  "Protocol \<Rightarrow> FaultDetectRule \<Rightarrow> (string \<times> ProtocolInstance) list \<Rightarrow>
   ResourceHealthChecker \<times> effects \<Rightarrow> ResourceHealthChecker \<times> effects"
where
  "checkLoop proto rule [] (c, e) = (c, e)"
| "checkLoop proto rule ((k, v) # rest) (c, e) =
     (let curProtocol = protocol v in
      if \<not> (curProtocol = UNKNOWN \<or> curProtocol = proto)
      then checkLoop proto rule rest (c, e)
      else
        (let ins = probeTarget v;
             (isSuccess, e1) = doCheck c ins (protocol v) rule e;
             c1 = c\<lparr>instances := AList.map_entry k (setCheckResult isSuccess) (instances c)\<rparr>
         in checkLoop proto rule rest (c1, e1)))"

definition checkResource ::
  "Protocol \<Rightarrow> FaultDetectRule \<Rightarrow> ResourceHealthChecker \<times> effects \<Rightarrow>
   ResourceHealthChecker \<times> effects"
where
  "checkResource proto rule ce =
     (let port = rulePort rule in
      if 0 < port then checkLoopPort rule (instances (fst ce)) [] ce
      else checkLoop proto rule (instances (fst ce)) ce)"

subsection \<open>A tick, entry by entry\<close>

text \<open>
  Names for stating what a tick does. An entry is \<open>selected\<close> by a tick when the
  loop of the tick reaches \<open>doCheck\<close> for it: every entry in the branch \<open>port > 0\<close>,
  and in the other branch the entries that pass the protocol test. \<open>probeResult\<close> is
  the call of \<open>doCheck\<close> the loops make for an entry, started from empty traces.
  \<open>afterTick\<close> is an entry with the result stored by \<open>setCheckResult\<close> if it is
  selected.
\<close>

definition selected :: "Protocol \<Rightarrow> FaultDetectRule \<Rightarrow> ProtocolInstance \<Rightarrow> bool" where
  "selected proto rule v \<longleftrightarrow> 0 < rulePort rule \<or> protocol v = UNKNOWN \<or> protocol v = proto"

definition probeResult ::
  "ResourceHealthChecker \<Rightarrow> FaultDetectRule \<Rightarrow> ProtocolInstance \<Rightarrow> bool \<times> effects" where
  "probeResult c rule v = doCheck c (probeTarget v) (protocol v) rule noEffects"

definition afterTick ::
  "ResourceHealthChecker \<Rightarrow> Protocol \<Rightarrow> FaultDetectRule \<Rightarrow> string \<times> ProtocolInstance \<Rightarrow>
   string \<times> ProtocolInstance" where
  "afterTick c proto rule kv =
     (fst kv, if selected proto rule (snd kv)
              then setCheckResult (fst (probeResult c rule (snd kv))) (snd kv) else snd kv)"

section \<open>Selecting the fault-detect rules of a resource\<close>

text \<open>
  The functions of the package \<open>pkg/algorithm/match\<close> that the selection calls lie
  outside the source files: they are parameters, collected in a record.
  \<open>matchString\<close> stands for \<open>match.MatchString\<close> with the checker's
  regular-expression cache already passed.
\<close>

record match_pkg =
  isMatchAll :: "string \<Rightarrow> bool"
  matchService :: "ServiceKey option \<Rightarrow> string \<Rightarrow> string \<Rightarrow> bool"
  matchString :: "string \<Rightarrow> MatchString option \<Rightarrow> bool"

text \<open>
  Modelled from the spec: a fault detector is the list of its rules, and a resource has
  the level and the service key of its kind (\<open>GetLevel\<close> and \<open>GetService\<close> of
  \<open>model.Resource\<close>).
\<close>

record FaultDetector =
  rules :: "FaultDetectRule list"

datatype Level = Level_UNKNOWN | Level_METHOD | Level_SERVICE | Level_INSTANCE

fun GetLevel :: "Resource \<Rightarrow> Level" where
  "GetLevel (ServiceResource k) = Level_SERVICE"
| "GetLevel (MethodResource k m) = Level_METHOD"
| "GetLevel (InstanceRes r) = Level_INSTANCE"

fun GetService :: "Resource \<Rightarrow> ServiceKey option" where
  "GetService (ServiceResource k) = k"
| "GetService (MethodResource k m) = k"
| "GetService (InstanceRes r) = resService r"

text \<open>
  \<open>sortFaultDetectRules\<close> with \<open>compareService\<close> and \<open>compareStringValue\<close>
  (health checker, lines 334 to 380). First the nil-safe getter chains of the
  comparison: the namespace, the service and the method value of a rule's target, each
  the empty string below a nil.
\<close>

definition destNamespace :: "FaultDetectRule \<Rightarrow> string" where
  "destNamespace rule = (case ruleTargetService rule of None \<Rightarrow> [] | Some t \<Rightarrow> dsNamespace t)"

definition destService :: "FaultDetectRule \<Rightarrow> string" where
  "destService rule = (case ruleTargetService rule of None \<Rightarrow> [] | Some t \<Rightarrow> dsService t)"

definition destMethod :: "FaultDetectRule \<Rightarrow> string" where
  "destMethod rule =
     (case ruleTargetService rule of
        None \<Rightarrow> []
      | Some t \<Rightarrow>
          (case dsMethod t of
             None \<Rightarrow> []
           | Some m \<Rightarrow> (case msValue m of None \<Rightarrow> [] | Some v \<Rightarrow> v)))"

text \<open>\<open>strings.Compare\<close>: the byte-wise lexicographic comparison, as -1, 0 or 1.\<close>

fun strings_Compare :: "string \<Rightarrow> string \<Rightarrow> int" where
  "strings_Compare [] [] = 0"
| "strings_Compare [] (b # bs) = - 1"
| "strings_Compare (a # as) [] = 1"
| "strings_Compare (a # as) (b # bs) =
     (if (of_char a :: nat) < of_char b then - 1
      else if (of_char b :: nat) < of_char a then 1
      else strings_Compare as bs)"

definition compareStringValue :: "match_pkg \<Rightarrow> string \<Rightarrow> string \<Rightarrow> int" where
  "compareStringValue m v1 v2 =
     (let isMatchAllV1 = isMatchAll m v1; isMatchAllV2 = isMatchAll m v2 in
      if isMatchAllV1 \<and> isMatchAllV2 then 0
      else if isMatchAllV1 then 1
      else if isMatchAllV2 then - 1
      else strings_Compare v1 v2)"

definition compareService :: "match_pkg \<Rightarrow> string \<Rightarrow> string \<Rightarrow> string \<Rightarrow> string \<Rightarrow> int" where
  "compareService m ns1 svc1 ns2 svc2 =
     (let v = compareStringValue m ns1 ns2 in
      if v \<noteq> 0 then v else compareStringValue m svc1 svc2)"

text \<open>The \<open>less\<close> function handed to \<open>sort.Slice\<close>.\<close>

definition ruleLess :: "match_pkg \<Rightarrow> FaultDetectRule \<Rightarrow> FaultDetectRule \<Rightarrow> bool" where
  "ruleLess m rule1 rule2 =
     (let v = compareService m (destNamespace rule1) (destService rule1)
                (destNamespace rule2) (destService rule2)
      in if v \<noteq> 0 then v < 0
         else compareStringValue m (destMethod rule1) (destMethod rule2) < 0)"

text \<open>
  The slice operations. \<open>make([]T, 0, n)\<close> is a slice of length 0, whatever its
  capacity \<open>n\<close>. The builtin \<open>copy(dst, src)\<close> overwrites the first
  \<open>min (len dst) (len src)\<close> elements of \<open>dst\<close> and leaves its length alone.
  \<open>sort.Slice\<close> is an insertion sort by \<open>less\<close> (the library promises a sorted
  permutation, and no particular order among equal elements).
\<close>

definition make_len0 :: "nat \<Rightarrow> 'a list" where
  "make_len0 n = []"

definition copy_slice :: "'a list \<Rightarrow> 'a list \<Rightarrow> 'a list" where
  "copy_slice dst src =
     (let n = min (length dst) (length src) in take n src @ drop n dst)"

fun insertBy :: "('a \<Rightarrow> 'a \<Rightarrow> bool) \<Rightarrow> 'a \<Rightarrow> 'a list \<Rightarrow> 'a list" where
  "insertBy lt x [] = [x]"
| "insertBy lt x (y # ys) = (if lt y x then y # insertBy lt x ys else x # y # ys)"

definition sort_Slice :: "('a \<Rightarrow> 'a \<Rightarrow> bool) \<Rightarrow> 'a list \<Rightarrow> 'a list" where
  "sort_Slice lt xs = foldr (insertBy lt) xs []"

definition sortFaultDetectRules :: "match_pkg \<Rightarrow> FaultDetectRule list \<Rightarrow> FaultDetectRule list" where
  "sortFaultDetectRules m srcRules =
     (let rules0 = make_len0 (length srcRules);
          rules1 = copy_slice rules0 srcRules
      in sort_Slice (ruleLess m) rules1)"

text \<open>
  \<open>selectFaultDetectRules\<close> and \<open>matchMethod\<close> (health checker, lines 382 to
  414). The loop runs over the sorted rules, with the map built so far. The target
  service is read through its fields, and the method value through the field
  \<open>Value\<close>: both panic on nil.
\<close>

definition matchMethod :: "match_pkg \<Rightarrow> Resource \<Rightarrow> MatchString option \<Rightarrow> bool" where
  "matchMethod m res val =
     (if GetLevel res \<noteq> Level_METHOD then True
      else (case res of MethodResource k method \<Rightarrow> matchString m method val | _ \<Rightarrow> True))"

fun selectLoop ::
  "match_pkg \<Rightarrow> Resource \<Rightarrow> FaultDetectRule list \<Rightarrow> (string \<rightharpoonup> FaultDetectRule) \<Rightarrow>
   error + (string \<rightharpoonup> FaultDetectRule)"
where
  "selectLoop m res [] matchRule = Inr matchRule"
| "selectLoop m res (rule # rest) matchRule =
     (case ruleTargetService rule of
        None \<Rightarrow> Inl NilDereference
      | Some targetService \<Rightarrow>
          if \<not> matchService m (GetService res) (dsNamespace targetService) (dsService targetService)
          then selectLoop m res rest matchRule
          else
            (case (if GetLevel res = Level_METHOD
                   then Inr (matchMethod m res (dsMethod targetService))
                   else (case dsMethod targetService of
                           None \<Rightarrow> Inl NilDereference
                         | Some method \<Rightarrow>
                             (case msValue method of
                                None \<Rightarrow> Inl NilDereference
                              | Some v \<Rightarrow> Inr (isMatchAll m v)))) of
               Inl e \<Rightarrow> Inl e
             | Inr False \<Rightarrow> selectLoop m res rest matchRule
             | Inr True \<Rightarrow>
                 if matchRule (Protocol_String (ruleProtocol rule)) = None
                 then selectLoop m res rest
                        (matchRule(Protocol_String (ruleProtocol rule) \<mapsto> rule))
                 else selectLoop m res rest matchRule))"

definition selectFaultDetectRules ::
  "match_pkg \<Rightarrow> Resource \<Rightarrow> FaultDetector \<Rightarrow> error + (string \<rightharpoonup> FaultDetectRule)"
where
  "selectFaultDetectRules m res faultDetector =
     (let sortedRules = sortFaultDetectRules m (rules faultDetector)
      in selectLoop m res sortedRules Map.empty)"

section \<open>The status list\<close>

text \<open>
  \<open>statusNode\<close> and \<open>statusList\<close> (status list source, lines 37 to 51).
  The nodes of a status list live in a store: a node is reached through its address,
  and the field \<open>nxt\<close> (\<open>next\<close> in the source) holds the address of the following
  node or nil. Allocation takes the
  next unused address. The payload is an empty-interface value (nil is \<open>None\<close>); a
  \<open>time.Time\<close> is an instant counted from the zero instant.
\<close>

type_synonym addr = nat

record 'd statusNode =
  changeSeq :: "32 word"
  changeTime :: int
  changeData :: "'d option"
  nxt :: "addr option"

record 'd store =
  cell :: "addr \<Rightarrow> 'd statusNode"
  fresh :: addr

record statusList =
  head :: addr
  tail :: addr
  count :: "32 word"
  seq :: "32 word"
  lock :: "32 word"

definition alloc :: "'d statusNode \<Rightarrow> 'd store \<Rightarrow> addr \<times> 'd store" where
  "alloc nd st = (fresh st, st\<lparr>cell := (cell st)(fresh st := nd), fresh := Suc (fresh st)\<rparr>)"

text \<open>\<open>newStatusList\<close> (status list source, lines 142 to 147): the head and the tail
  are one new empty node.\<close>

definition newStatusList :: "'d store \<Rightarrow> statusList \<times> 'd store" where
  "newStatusList st =
     (let (h, st1) = alloc \<lparr>changeSeq = 0, changeTime = 0, changeData = None, nxt = None\<rparr> st
      in (\<lparr>head = h, tail = h, count = 0, seq = 0, lock = 0\<rparr>, st1))"

text \<open>
  \<open>addStatus\<close>, \<open>addDeleteStatus\<close> and \<open>getNodes\<close> (status list source, lines
  150 to 208), run by one thread. Each has a spin loop: a pass that finds the lock
  taken starts the next pass; nothing in a sequential run releases the lock, so the loop
  then never returns, which is the value \<open>None\<close>. A pass that finds the lock free
  takes it, runs the body, releases it and returns.
\<close>

partial_function (option) addStatus_loop ::
  "addr \<Rightarrow> statusList \<Rightarrow> 'd store \<Rightarrow> (statusList \<times> 'd store) option"
where
  "addStatus_loop newNode s st =
     (if lock s \<noteq> 0 then addStatus_loop newNode s st
      else
        (let s1 = s\<lparr>lock := 1\<rparr>;
             st1 = st\<lparr>cell := (cell st)(tail s1 := (cell st (tail s1))\<lparr>nxt := Some newNode\<rparr>)\<rparr>;
             s2 = s1\<lparr>tail := newNode\<rparr>;
             s3 = s2\<lparr>count := count s2 + 1\<rparr>;
             s4 = s3\<lparr>lock := 0\<rparr>
         in Some (s4, st1)))"

definition addStatus ::
  "'d option \<Rightarrow> int \<Rightarrow> statusList \<times> 'd store \<Rightarrow> (statusList \<times> 'd store) option"
where
  "addStatus data currentTime w =
     (let s = fst w; st = snd w;
          currentSeq = seq s + 1;
          s0 = s\<lparr>seq := currentSeq\<rparr>;
          (newNode, st0) = alloc \<lparr>changeSeq = currentSeq, changeTime = currentTime,
                                  changeData = data, nxt = None\<rparr> st
      in addStatus_loop newNode s0 st0)"

text \<open>\<open>addDeleteStatus\<close> ends its pass with a compare-and-swap that puts \<open>seq\<close>
  back to 0 if it still holds the number given to the new node.\<close>

partial_function (option) addDeleteStatus_loop ::
  "addr \<Rightarrow> 32 word \<Rightarrow> statusList \<Rightarrow> 'd store \<Rightarrow> (statusList \<times> 'd store) option"
where
  "addDeleteStatus_loop newNode currentSeq s st =
     (if lock s \<noteq> 0 then addDeleteStatus_loop newNode currentSeq s st
      else
        (let s1 = s\<lparr>lock := 1\<rparr>;
             st1 = st\<lparr>cell := (cell st)(tail s1 := (cell st (tail s1))\<lparr>nxt := Some newNode\<rparr>)\<rparr>;
             s2 = s1\<lparr>tail := newNode\<rparr>;
             s3 = s2\<lparr>count := count s2 + 1\<rparr>;
             s4 = s3\<lparr>lock := 0\<rparr>;
             s5 = (if seq s4 = currentSeq then s4\<lparr>seq := 0\<rparr> else s4)
         in Some (s5, st1)))"

definition addDeleteStatus ::
  "'d option \<Rightarrow> int \<Rightarrow> statusList \<times> 'd store \<Rightarrow> (statusList \<times> 'd store) option"
where
  "addDeleteStatus data currentTime w =
     (let s = fst w; st = snd w;
          currentSeq = seq s + 1;
          s0 = s\<lparr>seq := currentSeq\<rparr>;
          (newNode, st0) = alloc \<lparr>changeSeq = currentSeq, changeTime = currentTime,
                                  changeData = data, nxt = None\<rparr> st
      in addDeleteStatus_loop newNode currentSeq s0 st0)"

text \<open>\<open>getNodes\<close> returns the address of the first node (or nil), the current
  \<open>seq\<close> and the count, with the list after the call.\<close>

partial_function (option) getNodes_loop ::
  "statusList \<Rightarrow> 'd store \<Rightarrow> ((addr option \<times> 32 word \<times> 32 word) \<times> statusList \<times> 'd store) option"
where
  "getNodes_loop s st =
     (if lock s \<noteq> 0 then getNodes_loop s st
      else
        (let s1 = s\<lparr>lock := 1\<rparr>;
             n = nxt (cell st (head s1));
             s2 = s1\<lparr>tail := head s1\<rparr>;
             st1 = st\<lparr>cell := (cell st)(head s2 := (cell st (head s2))\<lparr>nxt := None\<rparr>)\<rparr>;
             currentSeq = seq s2;
             currentCount = count s2;
             s3 = s2\<lparr>count := 0\<rparr>;
             s4 = s3\<lparr>lock := 0\<rparr>
         in Some ((n, currentSeq, currentCount), (s4, st1))))"

definition getNodes ::
  "statusList \<times> 'd store \<Rightarrow> ((addr option \<times> 32 word \<times> 32 word) \<times> statusList \<times> 'd store) option"
where
  "getNodes w = getNodes_loop (fst w) (snd w)"

subsection \<open>Runs of a status list, and reading a chain\<close>

text \<open>A run is a sequence of calls on one list; the result of a drain inside a run is
  dropped. A run that does not return is \<open>None\<close>.\<close>

datatype 'd op = Add "'d option" int | Delete "'d option" int | Drain

fun exec :: "'d op list \<Rightarrow> statusList \<times> 'd store \<Rightarrow> (statusList \<times> 'd store) option" where
  "exec [] w = Some w"
| "exec (Add d t # ops) w = Option.bind (addStatus d t w) (exec ops)"
| "exec (Delete d t # ops) w = Option.bind (addDeleteStatus d t w) (exec ops)"
| "exec (Drain # ops) w = Option.bind (getNodes w) (\<lambda>r. exec ops (snd r))"

text \<open>An append, with a flag that tells \<open>addDeleteStatus\<close> from \<open>addStatus\<close>.\<close>

fun toOp :: "bool \<times> 'd option \<times> int \<Rightarrow> 'd op" where
  "toOp (del, d, t) = (if del then Delete d t else Add d t)"

text \<open>What a consumer reads from a returned address by following \<open>nxt\<close> until nil,
  in at most \<open>k\<close> steps.\<close>

fun readChain :: "nat \<Rightarrow> 'd store \<Rightarrow> addr option \<Rightarrow> 'd statusNode list option" where
  "readChain k st None = Some []"
| "readChain 0 st (Some a) = None"
| "readChain (Suc k) st (Some a) =
     map_option ((#) (cell st a)) (readChain k st (nxt (cell st a)))"

subsection \<open>The shape of a status list in the store\<close>

text \<open>
  \<open>linked st a as\<close>: in the store \<open>st\<close> the nodes after the node \<open>a\<close> are, in
  order, the nodes at the addresses \<open>as\<close>, and the last of them has no successor.
  A list is well formed with the chain \<open>as\<close> when its lock is free, the chain hangs
  off its head, no address occurs twice, its tail is the last node, and every address is
  allocated.
\<close>

fun linked :: "'d store \<Rightarrow> addr \<Rightarrow> addr list \<Rightarrow> bool" where
  "linked st a [] = (nxt (cell st a) = None)"
| "linked st a (b # bs) = (nxt (cell st a) = Some b \<and> linked st b bs)"

definition wellformed :: "statusList \<times> 'd store \<Rightarrow> addr list \<Rightarrow> bool" where
  "wellformed w as \<longleftrightarrow>
     lock (fst w) = 0 \<and> linked (snd w) (head (fst w)) as \<and> distinct (head (fst w) # as) \<and>
     tail (fst w) = last (head (fst w) # as) \<and>
     (\<forall>a \<in> set (head (fst w) # as). a < fresh (snd w))"

text \<open>The store after an append: the new node is allocated and the node that was last
  points to it.\<close>

definition appended :: "'d statusNode \<Rightarrow> 'd store \<Rightarrow> addr \<Rightarrow> 'd store" where
  "appended nd st last_node =
     st\<lparr>cell := (cell st)(fresh st := nd,
                   last_node := (((cell st)(fresh st := nd)) last_node)\<lparr>nxt := Some (fresh st)\<rparr>),
        fresh := Suc (fresh st)\<rparr>"

definition nodeItem :: "'d statusNode \<Rightarrow> 32 word \<times> int \<times> 'd option" where
  "nodeItem nd = (changeSeq nd, changeTime nd, changeData nd)"

definition nodePayload :: "'d statusNode \<Rightarrow> 'd option \<times> int" where
  "nodePayload nd = (changeData nd, changeTime nd)"

section \<open>Example data\<close>

definition okChecker :: HealthChecker where
  "okChecker ins = Inr \<lparr>detCode = ''200'', detDelay = 5, detRetStatus = RetSuccess\<rparr>"

definition failingChecker :: HealthChecker where
  "failingChecker ins = Inl (ProbeError ''connection refused'')"

definition payments :: ServiceKey where
  "payments = \<lparr>Namespace = ''prod'', Service = ''payments''\<rparr>"

definition exampleResource :: "string \<Rightarrow> 32 word \<Rightarrow> string \<Rightarrow> InstanceResource" where
  "exampleResource h p proto =
     \<lparr>resService = Some payments, resNode = \<lparr>Host = h, Port = p\<rparr>, resProtocol = proto\<rparr>"

definition exampleInstance ::
  "string \<Rightarrow> 32 word \<Rightarrow> string \<Rightarrow> 64 word \<Rightarrow> 32 word \<Rightarrow> ProtocolInstance" where
  "exampleInstance h p proto lastReport ok =
     \<lparr>protocol = parseProtocol proto, insRes = exampleResource h p proto,
      lastReportMilli = lastReport, checkSuccess = ok\<rparr>"

definition exampleChecker ::
  "(string \<rightharpoonup> HealthChecker) \<Rightarrow> (string \<times> ProtocolInstance) list \<Rightarrow> ResourceHealthChecker" where
  "exampleChecker hc xs =
     \<lparr>resource = ServiceResource (Some payments), healthCheckers = hc, instances = xs,
      instanceExpireIntervalMill = 500\<rparr>"

definition exampleRule :: "string \<Rightarrow> string \<Rightarrow> string \<Rightarrow> Protocol \<Rightarrow> 32 word \<Rightarrow> FaultDetectRule" where
  "exampleRule name ns svc proto p =
     \<lparr>ruleName = name,
      ruleTargetService =
        Some \<lparr>dsNamespace = ns, dsService = svc, dsMethod = Some \<lparr>msValue = Some ''*''\<rparr>\<rparr>,
      ruleInterval = 1, ruleProtocol = proto, rulePort = p\<rparr>"

definition emptyStore :: "'d store" where
  "emptyStore = \<lparr>cell = (\<lambda>a. \<lparr>changeSeq = 0, changeTime = 0, changeData = None, nxt = None\<rparr>),
                 fresh = 0\<rparr>"

section \<open>Theorems\<close>

text \<open>
  C9. \<open>parseProtocol\<close> maps the string grpc/http to HTTP and the string unknown to
  UNKNOWN.
\<close>

theorem parseProtocol_examples:
  "parseProtocol ''grpc/http'' = HTTP \<and> parseProtocol ''unknown'' = UNKNOWN"
  by (simp add: parseProtocol_def toLower_def toLower_char_def hasPrefix_def hasSuffix_def)

text \<open>
  C3. For a non-nil current status, \<open>createCircuitBreakNode\<close> returns a node with
  status CloseToOpen when the previous status is nil or Close and the current one is
  Open, HalfOpenToOpen for HalfOpen to Open, OpenToHalfOpen for Open to HalfOpen, and
  HalfOpenToClose for HalfOpen to Close; the node's reason is the current breaker name.
  For every other pair it returns an error and no node.
\<close>

theorem createCircuitBreakNode_table:
  "createCircuitBreakNode pre (Some cur) =
     (if cbStatus cur = Open \<and> (pre = None \<or> map_option cbStatus pre = Some Close)
        then Inr \<lparr>status = CloseToOpen, reason = cbName cur\<rparr>
      else if cbStatus cur = Open \<and> map_option cbStatus pre = Some HalfOpen
        then Inr \<lparr>status = HalfOpenToOpen, reason = cbName cur\<rparr>
      else if cbStatus cur = HalfOpen \<and> map_option cbStatus pre = Some Open
        then Inr \<lparr>status = OpenToHalfOpen, reason = cbName cur\<rparr>
      else if cbStatus cur = Close \<and> map_option cbStatus pre = Some HalfOpen
        then Inr \<lparr>status = HalfOpenToClose, reason = cbName cur\<rparr>
      else Inl InvalidPreStatus)"
  by (cases pre; cases "cbStatus cur")
     (auto simp: createCircuitBreakNode_def Let_def split: Status.splits)

subsection \<open>Helper lemmas: strings and association lists\<close>

lemmas str_defs =
  parseProtocol_def toLower_def toLower_char_def hasPrefix_def hasSuffix_def char_of_eq_iff

lemmas ex_defs =
  okChecker_def failingChecker_def payments_def exampleResource_def exampleInstance_def
  exampleChecker_def exampleRule_def noEffects_def

lemma map_entry_keys: "map fst (AList.map_entry k f xs) = map fst xs"
  by (induction xs) auto

lemma map_of_map_entry:
  "map_of (AList.map_entry k f xs) k' =
     (if k' = k then map_option f (map_of xs k) else map_of xs k')"
  by (induction xs) auto

subsection \<open>Rule selection\<close>

lemma sortFaultDetectRules_nil: "sortFaultDetectRules m srcRules = []"
  by (simp add: sortFaultDetectRules_def make_len0_def copy_slice_def sort_Slice_def)

lemma selectFaultDetectRules_empty: "selectFaultDetectRules m res fd = Inr Map.empty"
  by (simp add: selectFaultDetectRules_def sortFaultDetectRules_nil)

text \<open>
  C1. For the service resource prod/payments and the detector holding the fully
  wildcard TCP rule R1 and the literal TCP rule R2 for prod/payments, the selection
  returns the empty map, whatever the matching functions are: the copy into a slice of
  length 0 copies nothing, so no rule reaches the selection loop and the literal rule is
  not returned.
\<close>

theorem selectFaultDetectRules_literal_rule_lost:
  "selectFaultDetectRules m (ServiceResource (Some payments))
     \<lparr>rules = [exampleRule ''R1'' ''*'' ''*'' TCP 0,
               exampleRule ''R2'' ''prod'' ''payments'' TCP 0]\<rparr>
   = Inr Map.empty"
  by (rule selectFaultDetectRules_empty)

subsection \<open>The expiry of instances\<close>

lemma collectExpired_eq:
  "collectExpired now ttl xs acc =
     acc @ map fst (filter (\<lambda>(k, v). \<not> isCheckSuccess v \<and>
                               sint ttl \<le> sint (now - lastReportMilli v)) xs)"
proof (induction xs arbitrary: acc)
  case Nil
  show ?case by simp
next
  case (Cons kv xs)
  obtain k v where kv: "kv = (k, v)" by (cases kv)
  show ?case unfolding kv by (simp add: Cons.IH getLastReportMilli_def)
qed

lemma deleteAll_eq: "deleteAll ks m = filter (\<lambda>(k, v). k \<notin> set ks) m"
  by (induction ks arbitrary: m) (auto simp: AList.delete_eq intro: filter_cong)

lemma distinct_key_filter:
  "distinct (map fst xs) \<Longrightarrow> (k, v) \<in> set xs \<Longrightarrow>
     k \<in> fst ` set (filter P xs) \<longleftrightarrow> P (k, v)"
  by (induction xs) (auto simp: rev_image_eqI)

text \<open>On clock readings that are not negative the \<open>int64\<close> difference is the
  difference of the integers.\<close>

lemma age_no_overflow:
  fixes now last :: "64 word"
  assumes "0 \<le> sint now" and "0 \<le> sint last"
  shows "sint (now - last) = sint now - sint last"
proof -
  have "sint now < 2 ^ 63" "sint last < 2 ^ 63"
    using sint_lt [of now] sint_lt [of last] by simp_all
  with assms have "- (2 ^ 63) \<le> sint now - sint last" "sint now - sint last < 2 ^ 63"
    by linarith+
  then show ?thesis
    by (simp add: sint_word_ariths signed_take_bit_int_eq_self)
qed

text \<open>
  C6. In a registry (a map: its keys are distinct), \<open>cleanInstances\<close> called at the
  clock reading \<open>now\<close> removes exactly the entries whose \<open>checkSuccess\<close> is not set
  and whose age \<open>now - lastReportMilli\<close> is at least the expiry interval, and keeps the
  others in place; in particular every entry with \<open>checkSuccess\<close> set stays.
\<close>

theorem cleanInstances_exact:
  assumes "distinct (map fst (instances c))"
  shows "instances (cleanInstances now c) =
           filter (\<lambda>(k, v). \<not> (\<not> isCheckSuccess v \<and>
                     sint (instanceExpireIntervalMill c) \<le> sint (now - lastReportMilli v)))
             (instances c)
         \<and> (\<forall>(k, v) \<in> set (instances c).
               isCheckSuccess v \<longrightarrow> (k, v) \<in> set (instances (cleanInstances now c)))"
proof -
  let ?P = "\<lambda>(k, v). \<not> isCheckSuccess v \<and>
                     sint (instanceExpireIntervalMill c) \<le> sint (now - lastReportMilli v)"
  have "instances (cleanInstances now c) =
          filter (\<lambda>(k, v). k \<notin> fst ` set (filter ?P (instances c))) (instances c)"
    by (simp add: cleanInstances_def Let_def collectExpired_eq deleteAll_eq)
  also have "\<dots> = filter (\<lambda>kv. \<not> ?P kv) (instances c)"
    using distinct_key_filter [OF assms, of _ _ ?P] by (intro filter_cong) auto
  finally have eq: "instances (cleanInstances now c) = filter (\<lambda>kv. \<not> ?P kv) (instances c)" .
  show ?thesis
    apply (rule conjI)
    subgoal using eq by (simp add: case_prod_unfold)
    subgoal unfolding eq by auto
    done
qed

theorem cleanInstances_exact_witness:
  "distinct (map fst (instances (exampleChecker Map.empty
      [(''a'', exampleInstance ''a'' 80 ''tcp'' 0 1),
       (''b'', exampleInstance ''b'' 80 ''tcp'' 0 0),
       (''c'', exampleInstance ''c'' 80 ''tcp'' 900 0)])))
   \<and> instances (cleanInstances 1000 (exampleChecker Map.empty
      [(''a'', exampleInstance ''a'' 80 ''tcp'' 0 1),
       (''b'', exampleInstance ''b'' 80 ''tcp'' 0 0),
       (''c'', exampleInstance ''c'' 80 ''tcp'' 900 0)]))
     = [(''a'', exampleInstance ''a'' 80 ''tcp'' 0 1),
        (''c'', exampleInstance ''c'' 80 ''tcp'' 900 0)]"
  using cleanInstances_exact [of "exampleChecker Map.empty
      [(''a'', exampleInstance ''a'' 80 ''tcp'' 0 1),
       (''b'', exampleInstance ''b'' 80 ''tcp'' 0 0),
       (''c'', exampleInstance ''c'' 80 ''tcp'' 900 0)]" 1000]
  by (simp add: exampleChecker_def exampleInstance_def isCheckSuccess_def)

subsection \<open>Reporting an instance\<close>

lemma addInstance_absent:
  assumes "map_of (instances c) (nodeString (resNode res)) = None"
  shows "instances (addInstance nodeString now res record c) =
           instances c @ [(nodeString (resNode res),
              \<lparr>protocol = parseProtocol (resProtocol res), insRes = res,
               lastReportMilli = now, checkSuccess = 0\<rparr>)]"
  using assms by (simp add: addInstance_def)

lemma addInstance_present:
  assumes "map_of (instances c) (nodeString (resNode res)) = Some v"
  shows "instances (addInstance nodeString now res True c) =
           AList.map_entry (nodeString (resNode res)) (doReport now) (instances c)"
  using assms by (simp add: addInstance_def)

text \<open>Calls for a node that is present change the time of its entry and nothing else,
  whatever resource data they carry.\<close>

lemma addInstance_later_calls:
  assumes "map_of (instances c) key = Some v"
      and "\<forall>(t, r) \<in> set later. nodeString (resNode r) = key"
  shows "map fst (instances (foldl (\<lambda>c (t, r). addInstance nodeString t r True c) c later))
           = map fst (instances c)
       \<and> map_of (instances (foldl (\<lambda>c (t, r). addInstance nodeString t r True c) c later)) key
           = Some (v\<lparr>lastReportMilli := last (lastReportMilli v # map fst later)\<rparr>)"
  using assms
proof (induction later arbitrary: c v)
  case Nil
  then show ?case by simp
next
  case (Cons call later)
  obtain t r where call: "call = (t, r)" by (cases call)
  from Cons.prems call have r: "nodeString (resNode r) = key" by simp
  let ?c1 = "addInstance nodeString t r True c"
  have i1: "instances ?c1 = AList.map_entry key (doReport t) (instances c)"
    using addInstance_present [of c nodeString r v t] Cons.prems(1) r by simp
  have m1: "map_of (instances ?c1) key = Some (v\<lparr>lastReportMilli := t\<rparr>)"
    by (simp add: i1 map_of_map_entry Cons.prems(1) doReport_def)
  have k1: "map fst (instances ?c1) = map fst (instances c)"
    by (simp add: i1 map_entry_keys)
  from Cons.prems(2) have "\<forall>(t, r) \<in> set later. nodeString (resNode r) = key" by simp
  from Cons.IH [OF m1 this] show ?case
    by (simp add: call k1)
qed

lemma sorted_last_ge:
  "sorted_wrt (\<lambda>a b. sint a \<le> sint b) xs \<Longrightarrow> x \<in> set xs \<Longrightarrow> sint x \<le> sint (last xs)"
  by (induction xs) auto

lemma last_is_Max:
  assumes "sorted_wrt (\<lambda>a b. sint a \<le> sint b) (t # ts)"
  shows "sint (last (t # ts)) = Max (sint ` set (t # ts))"
proof (rule sym, rule Max_eqI)
  show "finite (sint ` set (t # ts))" by simp
  show "\<And>y. y \<in> sint ` set (t # ts) \<Longrightarrow> y \<le> sint (last (t # ts))"
    using sorted_last_ge [OF assms] by blast
  show "sint (last (t # ts)) \<in> sint ` set (t # ts)"
    by (rule imageI, rule last_in_set) simp
qed

text \<open>
  C7. Let the node of \<open>res\<close> be absent from the registry. After a call
  \<open>addInstance(res, true)\<close> at the time \<open>t0\<close> and any number of later calls with
  \<open>record = true\<close> for the same node (with \<open>res\<close> itself, or with any resource of
  that node), the registry holds exactly one entry under the node's key; its protocol
  and its resource are the ones the first call stored, and its \<open>lastReportMilli\<close> is
  the time of the last call, which is the maximum of the call times when the clock
  readings do not decrease.
\<close>

theorem addInstance_repeated:
  assumes absent: "nodeString (resNode res) \<notin> fst ` set (instances c)"
      and same: "\<forall>(t, r) \<in> set later. nodeString (resNode r) = nodeString (resNode res)"
  shows "length (filter (\<lambda>(k, v). k = nodeString (resNode res))
           (instances (foldl (\<lambda>c (t, r). addInstance nodeString t r True c) c
              ((t0, res) # later)))) = 1
       \<and> map_of (instances (foldl (\<lambda>c (t, r). addInstance nodeString t r True c) c
              ((t0, res) # later)))
           (nodeString (resNode res))
           = Some \<lparr>protocol = parseProtocol (resProtocol res), insRes = res,
                   lastReportMilli = last (t0 # map fst later), checkSuccess = 0\<rparr>
       \<and> (sorted_wrt (\<lambda>a b. sint a \<le> sint b) (t0 # map fst later) \<longrightarrow>
            sint (last (t0 # map fst later)) = Max (sint ` set (t0 # map fst later)))"
proof -
  let ?key = "nodeString (resNode res)"
  let ?new = "\<lparr>protocol = parseProtocol (resProtocol res), insRes = res,
               lastReportMilli = t0, checkSuccess = 0\<rparr>"
  let ?c1 = "addInstance nodeString t0 res True c"
  let ?c' = "foldl (\<lambda>c (t, r). addInstance nodeString t r True c) ?c1 later"
  from absent have none: "map_of (instances c) ?key = None"
    by (simp add: map_of_eq_None_iff)
  have i1: "instances ?c1 = instances c @ [(?key, ?new)]"
    using none by (rule addInstance_absent)
  have m1: "map_of (instances ?c1) ?key = Some ?new"
    by (simp add: i1 none map_add_Some_iff)
  note L = addInstance_later_calls [OF m1 same]
  have keys: "map fst (instances ?c') = map fst (instances c) @ [?key]"
    using L by (simp add: i1)
  have "filter (\<lambda>k. k = ?key) (map fst (instances c)) = []"
    using absent by (simp add: filter_empty_conv) (metis imageI)
  then have "length (filter (\<lambda>k. k = ?key) (map fst (instances ?c'))) = 1"
    by (simp add: keys)
  then have cnt: "length (filter (\<lambda>(k, v). k = ?key) (instances ?c')) = 1"
    by (simp add: filter_map comp_def case_prod_unfold)
  have val: "map_of (instances ?c') ?key
               = Some (?new\<lparr>lastReportMilli := last (t0 # map fst later)\<rparr>)"
    using L by simp
  show ?thesis using cnt val last_is_Max [of t0 "map fst later"] by simp
qed

theorem addInstance_repeated_witness:
  "Host (resNode (exampleResource ''10.0.0.1'' 80 ''grpc/http''))
     \<notin> fst ` set (instances (exampleChecker Map.empty []))
   \<and> sorted_wrt (\<lambda>a b. sint a \<le> sint b) [100 :: 64 word, 200, 300]
   \<and> instances (foldl (\<lambda>c (t, r). addInstance (\<lambda>n. Host n) t r True c)
        (exampleChecker Map.empty [])
        [(100, exampleResource ''10.0.0.1'' 80 ''grpc/http''),
         (200, exampleResource ''10.0.0.1'' 80 ''grpc/http''),
         (300, exampleResource ''10.0.0.1'' 80 ''grpc/http'')])
     = [(''10.0.0.1'', exampleInstance ''10.0.0.1'' 80 ''grpc/http'' 300 0)]
   \<and> Max (sint ` set [100 :: 64 word, 200, 300]) = 300"
  using addInstance_repeated [of "\<lambda>n. Host n" "exampleResource ''10.0.0.1'' 80 ''grpc/http''"
     "exampleChecker Map.empty []"
     "[(200, exampleResource ''10.0.0.1'' 80 ''grpc/http''),
       (300, exampleResource ''10.0.0.1'' 80 ''grpc/http'')]" 100]
  by (simp add: exampleChecker_def exampleResource_def exampleInstance_def addInstance_def
        doReport_def)

subsection \<open>Probing\<close>

text \<open>The calls of \<open>doCheck\<close> a tick makes, with the target and the protocol
  passed.\<close>

lemma doCheck_checked:
  "checked (snd (doCheck c ins p rule e)) = checked e @ [(ins, p)]"
  by (simp add: doCheck_def Let_def split: option.splits sum.splits)

lemma checkLoop_checked:
  "checked (snd (checkLoop proto rule xs (c, e))) =
     checked e @ map (\<lambda>(k, v). (probeTarget v, protocol v))
       (filter (\<lambda>(k, v). protocol v = UNKNOWN \<or> protocol v = proto) xs)"
proof (induction xs arbitrary: c e)
  case Nil
  show ?case by simp
next
  case (Cons kv xs)
  obtain k v where kv: "kv = (k, v)" by (cases kv)
  show ?case
  proof (cases "protocol v = UNKNOWN \<or> protocol v = proto")
    case False
    then show ?thesis unfolding kv by (simp add: Cons.IH)
  next
    case True
    obtain ok e1 where d: "doCheck c (probeTarget v) (protocol v) rule e = (ok, e1)"
      by (cases "doCheck c (probeTarget v) (protocol v) rule e")
    have e1: "checked e1 = checked e @ [(probeTarget v, protocol v)]"
      using doCheck_checked [of c "probeTarget v" "protocol v" rule e] d by simp
    show ?thesis unfolding kv using True by (simp add: Let_def d Cons.IH e1)
  qed
qed

lemma checkLoopPort_checked:
  "distinct (map fst xs) \<Longrightarrow> set hosts \<inter> fst ` set xs = {} \<Longrightarrow>
   checked (snd (checkLoopPort rule xs hosts (c, e))) =
     checked e @ map (\<lambda>(k, v). (probeTarget v, protocol v)) xs"
proof (induction xs arbitrary: c e hosts)
  case Nil
  show ?case by simp
next
  case (Cons kv xs)
  obtain k v where kv: "kv = (k, v)" by (cases kv)
  from Cons.prems kv have notin: "k \<notin> set hosts" by auto
  obtain ok e1 where d: "doCheck c (probeTarget v) (protocol v) rule e = (ok, e1)"
    by (cases "doCheck c (probeTarget v) (protocol v) rule e")
  have e1: "checked e1 = checked e @ [(probeTarget v, protocol v)]"
    using doCheck_checked [of c "probeTarget v" "protocol v" rule e] d by simp
  from Cons.prems kv have dx: "distinct (map fst xs)" and "k \<notin> fst ` set xs" by auto
  with Cons.prems(2) kv have disj: "set (k # hosts) \<inter> fst ` set xs = {}" by auto
  show ?case unfolding kv using notin
    by (simp add: Let_def d Cons.IH [OF dx disj] e1)
qed

lemma checkResource_checked:
  assumes "distinct (map fst (instances c))"
  shows "checked (snd (checkResource proto rule (c, e))) =
           checked e @ map (\<lambda>v. (probeTarget v, protocol v))
             (filter (\<lambda>v. 0 < rulePort rule \<or> protocol v = UNKNOWN \<or> protocol v = proto)
                (map snd (instances c)))"
proof (cases "0 < rulePort rule")
  case True
  then show ?thesis
    using checkLoopPort_checked [OF assms, of "[]" rule c e]
    by (simp add: checkResource_def Let_def case_prod_unfold comp_def)
next
  case False
  then show ?thesis
    using checkLoop_checked [of proto rule "instances c" c e]
    by (simp add: checkResource_def Let_def case_prod_unfold filter_map comp_def)
qed


text \<open>
  A tick as a whole. In a registry with distinct keys, the registry after the tick is
  the registry before it with every selected entry's flag set to the result of its
  probe, and the traces of \<open>DetectInstance\<close> and \<open>Report\<close> calls grow by the calls
  of the probes of the selected entries, in visiting order.
\<close>

lemma doCheck_split:
  "doCheck c ins p rule e =
     (fst (doCheck c ins p rule noEffects),
      e\<lparr>checked := checked e @ [(ins, p)],
        detected := detected e @ detected (snd (doCheck c ins p rule noEffects)),
        reported := reported e @ reported (snd (doCheck c ins p rule noEffects))\<rparr>)"
  by (simp add: doCheck_def Let_def noEffects_def split: option.splits sum.splits)

lemma doCheck_instances_irrelevant:
  "doCheck (c\<lparr>instances := xs\<rparr>) ins p rule e = doCheck c ins p rule e"
  by (simp add: doCheck_def Let_def split: option.splits sum.splits)

lemma map_entry_at:
  "k \<notin> fst ` set before \<Longrightarrow>
   AList.map_entry k g (before @ (k, v) # xs) = before @ (k, g v) # xs"
  by (induction before) auto

lemma checkLoop_result:
  assumes "instances c = before @ xs" and "distinct (map fst (before @ xs))"
  shows "fst (checkLoop proto rule xs (c, e)) =
           c\<lparr>instances := before @ map (\<lambda>kv. (fst kv,
                if protocol (snd kv) = UNKNOWN \<or> protocol (snd kv) = proto
                then setCheckResult (fst (probeResult c rule (snd kv))) (snd kv) else snd kv)) xs\<rparr>
       \<and> detected (snd (checkLoop proto rule xs (c, e))) =
           detected e @ concat (map (\<lambda>v. detected (snd (probeResult c rule v)))
             (filter (\<lambda>v. protocol v = UNKNOWN \<or> protocol v = proto) (map snd xs)))
       \<and> reported (snd (checkLoop proto rule xs (c, e))) =
           reported e @ concat (map (\<lambda>v. reported (snd (probeResult c rule v)))
             (filter (\<lambda>v. protocol v = UNKNOWN \<or> protocol v = proto) (map snd xs)))"
  using assms
proof (induction xs arbitrary: c e before)
  case Nil
  then show ?case by simp
next
  case (Cons kv xs)
  obtain k v where kv: "kv = (k, v)" by (cases kv)
  from Cons.prems kv have knew: "k \<notin> fst ` set before" by auto
  show ?case
  proof (cases "protocol v = UNKNOWN \<or> protocol v = proto")
    case False
    from Cons.prems kv have "instances c = (before @ [(k, v)]) @ xs"
      "distinct (map fst ((before @ [(k, v)]) @ xs))" by simp_all
    from Cons.IH [OF this, of e] False show ?thesis unfolding kv by simp
  next
    case True
    let ?ok = "fst (probeResult c rule v)"
    let ?c1 = "c\<lparr>instances := AList.map_entry k (setCheckResult ?ok) (instances c)\<rparr>"
    let ?e1 = "e\<lparr>checked := checked e @ [(probeTarget v, protocol v)],
                  detected := detected e @ detected (snd (probeResult c rule v)),
                  reported := reported e @ reported (snd (probeResult c rule v))\<rparr>"
    have d: "doCheck c (probeTarget v) (protocol v) rule e = (?ok, ?e1)"
      using doCheck_split [of c "probeTarget v" "protocol v" rule e]
      by (simp add: probeResult_def)
    have i1: "instances ?c1 = (before @ [(k, setCheckResult ?ok v)]) @ xs"
      using Cons.prems(1) kv map_entry_at [OF knew] by simp
    have d1: "distinct (map fst ((before @ [(k, setCheckResult ?ok v)]) @ xs))"
      using Cons.prems(2) kv by simp
    have pr: "probeResult ?c1 rule = probeResult c rule"
      by (rule ext) (simp add: probeResult_def doCheck_instances_irrelevant)
    have step: "checkLoop proto rule (kv # xs) (c, e) = checkLoop proto rule xs (?c1, ?e1)"
      unfolding kv using True by (auto simp: Let_def d)
    from Cons.IH [OF i1 d1, of ?e1] True show ?thesis
      unfolding step by (simp add: pr kv)
  qed
qed

lemma checkLoopPort_result:
  assumes "instances c = before @ xs" and "distinct (map fst (before @ xs))"
      and "set hosts \<subseteq> fst ` set before"
  shows "fst (checkLoopPort rule xs hosts (c, e)) =
           c\<lparr>instances := before @ map (\<lambda>kv. (fst kv,
                setCheckResult (fst (probeResult c rule (snd kv))) (snd kv))) xs\<rparr>
       \<and> detected (snd (checkLoopPort rule xs hosts (c, e))) =
           detected e @ concat (map (\<lambda>v. detected (snd (probeResult c rule v))) (map snd xs))
       \<and> reported (snd (checkLoopPort rule xs hosts (c, e))) =
           reported e @ concat (map (\<lambda>v. reported (snd (probeResult c rule v))) (map snd xs))"
  using assms
proof (induction xs arbitrary: c e before hosts)
  case Nil
  then show ?case by simp
next
  case (Cons kv xs)
  obtain k v where kv: "kv = (k, v)" by (cases kv)
  from Cons.prems kv have knew: "k \<notin> fst ` set before" by auto
  with Cons.prems(3) have notin: "k \<notin> set hosts" by auto
  let ?ok = "fst (probeResult c rule v)"
  let ?c1 = "c\<lparr>instances := AList.map_entry k (setCheckResult ?ok) (instances c)\<rparr>"
  let ?e1 = "e\<lparr>checked := checked e @ [(probeTarget v, protocol v)],
                detected := detected e @ detected (snd (probeResult c rule v)),
                reported := reported e @ reported (snd (probeResult c rule v))\<rparr>"
  have d: "doCheck c (probeTarget v) (protocol v) rule e = (?ok, ?e1)"
    using doCheck_split [of c "probeTarget v" "protocol v" rule e]
    by (simp add: probeResult_def)
  have i1: "instances ?c1 = (before @ [(k, setCheckResult ?ok v)]) @ xs"
    using Cons.prems(1) kv map_entry_at [OF knew] by simp
  have d1: "distinct (map fst ((before @ [(k, setCheckResult ?ok v)]) @ xs))"
    using Cons.prems(2) kv by simp
  have h1: "set (k # hosts) \<subseteq> fst ` set (before @ [(k, setCheckResult ?ok v)])"
    using Cons.prems(3) by auto
  have pr: "probeResult ?c1 rule = probeResult c rule"
    by (rule ext) (simp add: probeResult_def doCheck_instances_irrelevant)
  have step: "checkLoopPort rule (kv # xs) hosts (c, e) = checkLoopPort rule xs (k # hosts) (?c1, ?e1)"
    unfolding kv using notin by (simp add: Let_def d)
  from Cons.IH [OF i1 d1 h1, of ?e1] show ?case
    unfolding step by (simp add: pr kv)
qed

lemma checkResource_result:
  assumes "distinct (map fst (instances c))"
  shows "fst (checkResource proto rule (c, e)) = c\<lparr>instances := map (afterTick c proto rule) (instances c)\<rparr>
       \<and> detected (snd (checkResource proto rule (c, e))) =
           detected e @ concat (map (\<lambda>v. detected (snd (probeResult c rule v)))
             (filter (selected proto rule) (map snd (instances c))))
       \<and> reported (snd (checkResource proto rule (c, e))) =
           reported e @ concat (map (\<lambda>v. reported (snd (probeResult c rule v)))
             (filter (selected proto rule) (map snd (instances c))))"
proof (cases "0 < rulePort rule")
  case True
  then have sel: "selected proto rule = (\<lambda>v. True)"
    by (rule_tac ext) (simp add: selected_def)
  have at: "afterTick c proto rule =
              (\<lambda>kv. (fst kv, setCheckResult (fst (probeResult c rule (snd kv))) (snd kv)))"
    by (rule ext) (simp add: afterTick_def sel)
  from checkLoopPort_result [of c "[]" "instances c" "[]" rule e] assms True show ?thesis
    by (simp add: checkResource_def Let_def sel at)
next
  case False
  then have sel: "selected proto rule = (\<lambda>v. protocol v = UNKNOWN \<or> protocol v = proto)"
    by (rule_tac ext) (simp add: selected_def)
  have at: "afterTick c proto rule =
              (\<lambda>kv. (fst kv, if protocol (snd kv) = UNKNOWN \<or> protocol (snd kv) = proto
                 then setCheckResult (fst (probeResult c rule (snd kv))) (snd kv) else snd kv))"
    by (rule ext) (simp add: afterTick_def sel)
  from checkLoop_result [of c "[]" "instances c" proto rule e] assms False show ?thesis
    by (simp add: checkResource_def Let_def sel at)
qed

lemma map_of_updated_entry:
  "distinct (map fst xs) \<Longrightarrow> (k, v) \<in> set xs \<Longrightarrow>
   map_of (map (\<lambda>kv. (fst kv, f kv)) xs) k = Some (f (k, v))"
  by (induction xs) (auto simp: rev_image_eqI)

lemma concat_singletons:
  "concat (map (\<lambda>v. if P v then [f v] else []) xs) = map f (filter P xs)"
  by (induction xs) auto

lemma probeResult_detected:
  "detected (snd (probeResult c rule v)) =
     (if healthCheckers c (toLower (Protocol_String (protocol v))) \<noteq> None
      then [probeTarget v] else [])"
  by (simp add: probeResult_def doCheck_def Let_def noEffects_def split: option.splits sum.splits)

text \<open>The plugin is looked up under the entry's own protocol: a selected entry is
  probed only if a plugin is registered under that name.\<close>

lemma checkResource_detected:
  assumes "distinct (map fst (instances c))"
  shows "detected (snd (checkResource proto rule (c, e))) =
           detected e @ map probeTarget
             (filter (\<lambda>v. selected proto rule v \<and>
                          healthCheckers c (toLower (Protocol_String (protocol v))) \<noteq> None)
                (map snd (instances c)))"
proof -
  have "concat (map (\<lambda>v. detected (snd (probeResult c rule v))) xs)
          = map probeTarget
              (filter (\<lambda>v. healthCheckers c (toLower (Protocol_String (protocol v))) \<noteq> None) xs)"
    for xs
    using concat_singletons
      [of "\<lambda>v. healthCheckers c (toLower (Protocol_String (protocol v))) \<noteq> None" probeTarget xs]
    by (simp add: probeResult_detected)
  with checkResource_result [OF assms, of proto rule e] show ?thesis
    by (simp add: conj_commute)
qed

text \<open>
  C5. When a plugin is registered for the protocol and its \<open>DetectInstance\<close> returns
  an error on a target, \<open>doCheck\<close> returns false and the calls of \<open>Report\<close> are the
  ones made before. In a tick of \<open>checkResource\<close> every entry of the registry that is
  probed with that target and protocol then has its \<open>checkSuccess\<close> flag at 0 in the
  registry after the tick, and its probe adds nothing to the calls of \<open>Report\<close> the
  tick makes.
\<close>

theorem doCheck_probe_error:
  assumes "healthCheckers c (toLower (Protocol_String proto)) = Some checker"
      and "checker ins = Inl err"
  shows "fst (doCheck c ins proto rule e) = False
       \<and> reported (snd (doCheck c ins proto rule e)) = reported e
       \<and> (\<forall>k v. distinct (map fst (instances c)) \<and> (k, v) \<in> set (instances c)
               \<and> selected job rule v \<and> probeTarget v = ins \<and> protocol v = proto \<longrightarrow>
             map_of (instances (fst (checkResource job rule (c, e)))) k
               = Some (v\<lparr>checkSuccess := 0\<rparr>)
             \<and> reported (snd (probeResult c rule v)) = []
             \<and> reported (snd (checkResource job rule (c, e)))
                 = reported e @ concat (map (\<lambda>u. reported (snd (probeResult c rule u)))
                     (filter (selected job rule) (map snd (instances c)))))"
proof -
  have step: "fst (doCheck c ins proto rule e') = False
              \<and> reported (snd (doCheck c ins proto rule e')) = reported e'" for e'
    using assms by (simp add: doCheck_def Let_def)
  have tick: "map_of (instances (fst (checkResource job rule (c, e)))) k
                = Some (v\<lparr>checkSuccess := 0\<rparr>)
              \<and> reported (snd (probeResult c rule v)) = []
              \<and> reported (snd (checkResource job rule (c, e)))
                  = reported e @ concat (map (\<lambda>u. reported (snd (probeResult c rule u)))
                      (filter (selected job rule) (map snd (instances c))))"
    if d: "distinct (map fst (instances c))" and kv: "(k, v) \<in> set (instances c)"
      and sel: "selected job rule v" and ins: "probeTarget v = ins" and p: "protocol v = proto"
    for k v
  proof -
    note R = checkResource_result [OF d, of job rule e]
    have pr: "fst (probeResult c rule v) = False" "reported (snd (probeResult c rule v)) = []"
      using step [of noEffects] by (simp_all add: probeResult_def ins p noEffects_def)
    have m: "map (afterTick c job rule) (instances c)
               = map (\<lambda>kv. (fst kv, snd (afterTick c job rule kv))) (instances c)"
      by (simp add: afterTick_def)
    have "map_of (map (afterTick c job rule) (instances c)) k
            = Some (snd (afterTick c job rule (k, v)))"
      unfolding m by (rule map_of_updated_entry [OF d kv])
    with R have "map_of (instances (fst (checkResource job rule (c, e)))) k
            = Some (snd (afterTick c job rule (k, v)))"
      by simp
    then have "map_of (instances (fst (checkResource job rule (c, e)))) k
                 = Some (v\<lparr>checkSuccess := 0\<rparr>)"
      by (simp add: afterTick_def sel pr setCheckResult_def)
    with pr R show ?thesis by simp
  qed
  from step [of e] tick show ?thesis by blast
qed

theorem doCheck_probe_error_witness:
  "fst (doCheck (exampleChecker [''tcp'' \<mapsto> failingChecker]
           [(''10.0.0.1:80'', exampleInstance ''10.0.0.1'' 80 ''tcp'' 0 1)])
        \<lparr>insService = payments, insHost = ''10.0.0.1'', insPort = 80\<rparr> TCP
        (exampleRule ''R'' ''prod'' ''payments'' TCP 0) noEffects)
     = False
   \<and> reported (snd (doCheck (exampleChecker [''tcp'' \<mapsto> failingChecker]
           [(''10.0.0.1:80'', exampleInstance ''10.0.0.1'' 80 ''tcp'' 0 1)])
        \<lparr>insService = payments, insHost = ''10.0.0.1'', insPort = 80\<rparr> TCP
        (exampleRule ''R'' ''prod'' ''payments'' TCP 0) noEffects))
     = []
   \<and> isCheckSuccess (exampleInstance ''10.0.0.1'' 80 ''tcp'' 0 1)
   \<and> instances (fst (checkResource TCP (exampleRule ''R'' ''prod'' ''payments'' TCP 0)
        (exampleChecker [''tcp'' \<mapsto> failingChecker]
           [(''10.0.0.1:80'', exampleInstance ''10.0.0.1'' 80 ''tcp'' 0 1)], noEffects)))
     = [(''10.0.0.1:80'', exampleInstance ''10.0.0.1'' 80 ''tcp'' 0 0)]
   \<and> reported (snd (checkResource TCP (exampleRule ''R'' ''prod'' ''payments'' TCP 0)
        (exampleChecker [''tcp'' \<mapsto> failingChecker]
           [(''10.0.0.1:80'', exampleInstance ''10.0.0.1'' 80 ''tcp'' 0 1)], noEffects)))
     = []"
  using doCheck_probe_error [where c = "exampleChecker [''tcp'' \<mapsto> failingChecker]
           [(''10.0.0.1:80'', exampleInstance ''10.0.0.1'' 80 ''tcp'' 0 1)]"
     and proto = TCP and checker = failingChecker
     and ins = "\<lparr>insService = payments, insHost = ''10.0.0.1'', insPort = 80\<rparr>"
     and err = "ProbeError ''connection refused''"
     and rule = "exampleRule ''R'' ''prod'' ''payments'' TCP 0" and e = noEffects and job = TCP]
  by (simp add: checkResource_def doCheck_def Let_def ex_defs probeTarget_def
        defaultServiceKey_def str_defs isCheckSuccess_def setCheckResult_def)

text \<open>
  C8. With plugins registered for http, tcp and udp and a registry holding an instance
  of unknown protocol, an HTTP instance and a TCP instance, a tick of the TCP rule with
  the port 0 calls a plugin on the TCP instance only: the instance with the protocol
  UNKNOWN is not probed, for \<open>doCheck\<close> is passed the instance's own protocol and
  finds no plugin named unknown. A tick of the TCP rule with the port 8080 calls a
  plugin on the HTTP instance too.
\<close>

theorem checkResource_protocol_selection_broken:
  "protocol (exampleInstance ''10.0.0.1'' 9000 ''grpc'' 0 0) = UNKNOWN
   \<and> protocol (exampleInstance ''10.0.0.2'' 9000 ''http'' 0 0) = HTTP
   \<and> protocol (exampleInstance ''10.0.0.3'' 9000 ''tcp'' 0 0) = TCP
   \<and> detected (snd (checkResource TCP (exampleRule ''R'' ''prod'' ''payments'' TCP 0)
        (exampleChecker [''http'' \<mapsto> okChecker, ''tcp'' \<mapsto> okChecker, ''udp'' \<mapsto> okChecker]
           [(''10.0.0.1:9000'', exampleInstance ''10.0.0.1'' 9000 ''grpc'' 0 0),
            (''10.0.0.2:9000'', exampleInstance ''10.0.0.2'' 9000 ''http'' 0 0),
            (''10.0.0.3:9000'', exampleInstance ''10.0.0.3'' 9000 ''tcp'' 0 0)], noEffects)))
     = [\<lparr>insService = payments, insHost = ''10.0.0.3'', insPort = 9000\<rparr>]
   \<and> detected (snd (checkResource TCP (exampleRule ''R'' ''prod'' ''payments'' TCP 8080)
        (exampleChecker [''http'' \<mapsto> okChecker, ''tcp'' \<mapsto> okChecker, ''udp'' \<mapsto> okChecker]
           [(''10.0.0.1:9000'', exampleInstance ''10.0.0.1'' 9000 ''grpc'' 0 0),
            (''10.0.0.2:9000'', exampleInstance ''10.0.0.2'' 9000 ''http'' 0 0),
            (''10.0.0.3:9000'', exampleInstance ''10.0.0.3'' 9000 ''tcp'' 0 0)], noEffects)))
     = [\<lparr>insService = payments, insHost = ''10.0.0.2'', insPort = 9000\<rparr>,
        \<lparr>insService = payments, insHost = ''10.0.0.3'', insPort = 9000\<rparr>]"
  by (simp add: checkResource_def doCheck_def Let_def ex_defs probeTarget_def
        defaultServiceKey_def str_defs)

text \<open>
  C2. Under the TCP rule with the port 8080, the instance registered at 10.0.0.1:9000
  is probed at 10.0.0.1:9000: the target handed to \<open>doCheck\<close> and to the plugin
  carries the instance's own port, not the port of the rule.
\<close>

theorem checkResource_rule_port_unused:
  "rulePort (exampleRule ''R'' ''prod'' ''payments'' TCP 8080) = 8080
   \<and> checked (snd (checkResource TCP (exampleRule ''R'' ''prod'' ''payments'' TCP 8080)
        (exampleChecker [''tcp'' \<mapsto> okChecker]
           [(''10.0.0.1:9000'', exampleInstance ''10.0.0.1'' 9000 ''tcp'' 0 0)], noEffects)))
     = [(\<lparr>insService = payments, insHost = ''10.0.0.1'', insPort = 9000\<rparr>, TCP)]
   \<and> detected (snd (checkResource TCP (exampleRule ''R'' ''prod'' ''payments'' TCP 8080)
        (exampleChecker [''tcp'' \<mapsto> okChecker]
           [(''10.0.0.1:9000'', exampleInstance ''10.0.0.1'' 9000 ''tcp'' 0 0)], noEffects)))
     = [\<lparr>insService = payments, insHost = ''10.0.0.1'', insPort = 9000\<rparr>]"
  by (simp add: checkResource_def doCheck_def Let_def ex_defs probeTarget_def
        defaultServiceKey_def str_defs)

subsection \<open>The status list\<close>


lemma linked_frame:
  "(\<forall>x \<in> set (a # as). nxt (cell st' x) = nxt (cell st x)) \<Longrightarrow> linked st' a as = linked st a as"
  by (induction as arbitrary: a) auto

lemma linked_snoc:
  assumes "linked st a as" "distinct (a # as)" "new \<notin> set (a # as)" "nxt (cell st new) = None"
  shows "linked (st\<lparr>cell := (cell st)(last (a # as) := (cell st (last (a # as)))\<lparr>nxt := Some new\<rparr>)\<rparr>)
           a (as @ [new])"
  using assms
proof (induction as arbitrary: a)
  case Nil
  then show ?case by simp
next
  case (Cons b bs)
  have "last (b # bs) \<in> set (b # bs)" by (rule last_in_set) simp
  with Cons.prems(2) have ne: "a \<noteq> last (b # bs)" by auto
  from Cons.prems have "linked st b bs" "distinct (b # bs)" "new \<notin> set (b # bs)" by auto
  from Cons.IH [OF this Cons.prems(4)] Cons.prems(1) ne show ?case by simp
qed

lemma readChain_linked:
  "linked st a as \<Longrightarrow> readChain (length as) st (nxt (cell st a)) = Some (map (cell st) as)"
  by (induction as arbitrary: a) auto

lemma readChain_frame:
  "linked st a as \<Longrightarrow> nxt (cell st' a) = nxt (cell st a) \<Longrightarrow>
   (\<forall>x \<in> set as. cell st' x = cell st x) \<Longrightarrow>
   readChain k st' (nxt (cell st' a)) = readChain k st (nxt (cell st a))"
proof (induction as arbitrary: a k)
  case Nil
  then show ?case by simp
next
  case (Cons b bs)
  show ?case
  proof (cases k)
    case 0
    with Cons.prems show ?thesis by simp
  next
    case (Suc j)
    from Cons.prems have "linked st b bs" "nxt (cell st' b) = nxt (cell st b)"
      "\<forall>x \<in> set bs. cell st' x = cell st x" by auto
    from Cons.IH [OF this, of j] Cons.prems Suc show ?thesis by simp
  qed
qed

lemma addStatus_unfold:
  assumes "lock s = 0"
  shows "addStatus d t (s, st) =
     Some (s\<lparr>seq := seq s + 1, tail := fresh st, count := count s + 1\<rparr>,
           st\<lparr>cell := (cell st)
                 (fresh st := \<lparr>changeSeq = seq s + 1, changeTime = t, changeData = d, nxt = None\<rparr>,
                  tail s := (((cell st)(fresh st := \<lparr>changeSeq = seq s + 1, changeTime = t,
                                 changeData = d, nxt = None\<rparr>)) (tail s))\<lparr>nxt := Some (fresh st)\<rparr>),
              fresh := Suc (fresh st)\<rparr>)"
  using assms
  by (simp add: addStatus_def alloc_def Let_def addStatus_loop.simps [of "fresh st"])

lemma addDeleteStatus_unfold:
  assumes "lock s = 0"
  shows "addDeleteStatus d t (s, st) =
     Some (s\<lparr>seq := 0, tail := fresh st, count := count s + 1\<rparr>,
           st\<lparr>cell := (cell st)
                 (fresh st := \<lparr>changeSeq = seq s + 1, changeTime = t, changeData = d, nxt = None\<rparr>,
                  tail s := (((cell st)(fresh st := \<lparr>changeSeq = seq s + 1, changeTime = t,
                                 changeData = d, nxt = None\<rparr>)) (tail s))\<lparr>nxt := Some (fresh st)\<rparr>),
              fresh := Suc (fresh st)\<rparr>)"
  using assms
  by (simp add: addDeleteStatus_def alloc_def Let_def addDeleteStatus_loop.simps [of "fresh st"])

lemma getNodes_unfold:
  assumes "lock s = 0"
  shows "getNodes (s, st) =
     Some ((nxt (cell st (head s)), seq s, count s),
           s\<lparr>tail := head s, count := 0\<rparr>,
           st\<lparr>cell := (cell st)(head s := (cell st (head s))\<lparr>nxt := None\<rparr>)\<rparr>)"
  using assms
  by (simp add: getNodes_def Let_def getNodes_loop.simps [of s])



lemma wellformed_append:
  assumes wf: "wellformed (s, st) as"
      and nd: "nxt nd = None"
      and s': "head s' = head s" "tail s' = fresh st" "lock s' = 0"
  shows "wellformed (s', appended nd st (tail s)) (as @ [fresh st])"
    and "map nodeItem (map (cell (appended nd st (tail s))) as) = map nodeItem (map (cell st) as)"
    and "cell (appended nd st (tail s)) (fresh st) = nd"
    and "\<forall>x. x \<notin> set (head s # as) \<longrightarrow> x \<noteq> fresh st \<longrightarrow>
           cell (appended nd st (tail s)) x = cell st x"
    and "fresh (appended nd st (tail s)) = Suc (fresh st)"
proof -
  let ?new = "fresh st"
  let ?st0 = "st\<lparr>cell := (cell st)(?new := nd), fresh := Suc ?new\<rparr>"
  from wf have lk: "linked st (head s) as" and d: "distinct (head s # as)"
    and tl: "tail s = last (head s # as)" and bound: "\<forall>a \<in> set (head s # as). a < ?new"
    by (simp_all add: wellformed_def)
  from bound have notin: "?new \<notin> set (head s # as)" by auto
  have tl_in: "tail s \<in> set (head s # as)" unfolding tl by (rule last_in_set) simp
  with notin have tl_ne: "tail s \<noteq> ?new" by auto
  have "linked ?st0 (head s) as = linked st (head s) as"
    by (rule linked_frame) (use notin in auto)
  with lk have lk0: "linked ?st0 (head s) as" by simp
  have "linked (?st0\<lparr>cell := (cell ?st0)(last (head s # as) :=
            (cell ?st0 (last (head s # as)))\<lparr>nxt := Some ?new\<rparr>)\<rparr>) (head s) (as @ [?new])"
    by (rule linked_snoc [OF lk0 d notin]) (simp add: nd)
  moreover have "?st0\<lparr>cell := (cell ?st0)(last (head s # as) :=
            (cell ?st0 (last (head s # as)))\<lparr>nxt := Some ?new\<rparr>)\<rparr> = appended nd st (tail s)"
    unfolding tl [symmetric] by (simp add: appended_def)
  ultimately have lk': "linked (appended nd st (tail s)) (head s) (as @ [?new])"
    by simp
  show "wellformed (s', appended nd st (tail s)) (as @ [?new])"
    using lk' d notin bound s' by (auto simp: wellformed_def appended_def)
  show "map nodeItem (map (cell (appended nd st (tail s))) as) = map nodeItem (map (cell st) as)"
    using notin by (auto simp: appended_def nodeItem_def)
  show "cell (appended nd st (tail s)) ?new = nd"
    using tl_ne by (simp add: appended_def)
  show "\<forall>x. x \<notin> set (head s # as) \<longrightarrow> x \<noteq> ?new \<longrightarrow>
           cell (appended nd st (tail s)) x = cell st x"
    using tl_in by (auto simp: appended_def)
  show "fresh (appended nd st (tail s)) = Suc ?new" by (simp add: appended_def)
qed

lemma addStatus_appended:
  assumes "lock s = 0"
  shows "addStatus d t (s, st) =
     Some (s\<lparr>seq := seq s + 1, tail := fresh st, count := count s + 1\<rparr>,
           appended \<lparr>changeSeq = seq s + 1, changeTime = t, changeData = d, nxt = None\<rparr> st (tail s))"
  using assms by (simp add: addStatus_unfold appended_def)

lemma addDeleteStatus_appended:
  assumes "lock s = 0"
  shows "addDeleteStatus d t (s, st) =
     Some (s\<lparr>seq := 0, tail := fresh st, count := count s + 1\<rparr>,
           appended \<lparr>changeSeq = seq s + 1, changeTime = t, changeData = d, nxt = None\<rparr> st (tail s))"
  using assms by (simp add: addDeleteStatus_unfold appended_def)

lemma readChain_detached:
  assumes lk: "linked st a as" and same: "\<forall>x \<in> set as. cell st' x = cell st x"
  shows "readChain k st' (nxt (cell st a)) = readChain k st (nxt (cell st a))"
proof (cases as)
  case Nil
  with lk show ?thesis by simp
next
  case (Cons b bs)
  with lk have n: "nxt (cell st a) = Some b" and lb: "linked st b bs" by simp_all
  from same Cons have cb: "cell st' b = cell st b" and rest: "\<forall>x \<in> set bs. cell st' x = cell st x"
    by simp_all
  show ?thesis
  proof (cases k)
    case 0
    then show ?thesis by (simp add: n)
  next
    case (Suc j)
    have "readChain j st' (nxt (cell st' b)) = readChain j st (nxt (cell st b))"
      by (rule readChain_frame [OF lb _ rest]) (simp add: cb)
    then show ?thesis by (simp add: n Suc cb)
  qed
qed

lemma wellformed_drain:
  assumes wf: "wellformed (s, st) as"
  defines "st' \<equiv> st\<lparr>cell := (cell st)(head s := (cell st (head s))\<lparr>nxt := None\<rparr>)\<rparr>"
  shows "wellformed (s\<lparr>tail := head s, count := 0\<rparr>, st') []"
    and "readChain k st' (nxt (cell st (head s))) = readChain k st (nxt (cell st (head s)))"
    and "readChain (length as) st' (nxt (cell st (head s))) = Some (map (cell st) as)"
proof -
  from wf have lk: "linked st (head s) as" and d: "distinct (head s # as)"
    and bound: "\<forall>a \<in> set (head s # as). a < fresh st" and l0: "lock s = 0"
    by (simp_all add: wellformed_def)
  show "wellformed (s\<lparr>tail := head s, count := 0\<rparr>, st') []"
    using bound l0 by (simp add: wellformed_def st'_def)
  have same: "\<forall>x \<in> set as. cell st' x = cell st x"
    using d by (auto simp: st'_def)
  show r: "readChain k st' (nxt (cell st (head s))) = readChain k st (nxt (cell st (head s)))" for k
    by (rule readChain_detached [OF lk same])
  show "readChain (length as) st' (nxt (cell st (head s))) = Some (map (cell st) as)"
    using r [of "length as"] readChain_linked [OF lk] by simp
qed

lemma wellformed_new: "wellformed (newStatusList st) []"
  by (simp add: newStatusList_def alloc_def wellformed_def)

lemma exec_append: "exec (xs @ ys) w = Option.bind (exec xs w) (exec ys)"
proof (induction xs arbitrary: w)
  case Nil
  show ?case by simp
next
  case (Cons x xs)
  show ?case by (cases x) (auto simp: Cons.IH split: Option.bind_splits)
qed

lemma exec_wellformed:
  "wellformed w as \<Longrightarrow> \<exists>w' bs. exec ops w = Some w' \<and> wellformed w' bs"
proof (induction ops arbitrary: w as)
  case Nil
  then show ?case by auto
next
  case (Cons x ops)
  obtain s st where w: "w = (s, st)" by (cases w)
  from Cons.prems w have l0: "lock s = 0" by (simp add: wellformed_def)
  show ?case
  proof (cases x)
    case (Add d t)
    have "wellformed (s\<lparr>seq := seq s + 1, tail := fresh st, count := count s + 1\<rparr>,
            appended \<lparr>changeSeq = seq s + 1, changeTime = t, changeData = d, nxt = None\<rparr> st (tail s))
            (as @ [fresh st])"
      by (rule wellformed_append(1) [OF Cons.prems [unfolded w]]) (simp_all add: l0)
    from Cons.IH [OF this] show ?thesis
      by (simp add: Add w addStatus_appended [OF l0])
  next
    case (Delete d t)
    have "wellformed (s\<lparr>seq := 0, tail := fresh st, count := count s + 1\<rparr>,
            appended \<lparr>changeSeq = seq s + 1, changeTime = t, changeData = d, nxt = None\<rparr> st (tail s))
            (as @ [fresh st])"
      by (rule wellformed_append(1) [OF Cons.prems [unfolded w]]) (simp_all add: l0)
    from Cons.IH [OF this] show ?thesis
      by (simp add: Delete w addDeleteStatus_appended [OF l0])
  next
    case Drain
    from Cons.IH [OF wellformed_drain(1) [OF Cons.prems [unfolded w]]] show ?thesis
      by (simp add: Drain w getNodes_unfold [OF l0])
  qed
qed



lemma payload_of_item: "map nodeItem xs = map nodeItem ys \<Longrightarrow> map nodePayload xs = map nodePayload ys"
proof -
  assume "map nodeItem xs = map nodeItem ys"
  then have "map ((\<lambda>(q, t, d). (d, t)) \<circ> nodeItem) xs = map ((\<lambda>(q, t, d). (d, t)) \<circ> nodeItem) ys"
    by (metis map_map)
  moreover have "(\<lambda>(q, t, d). (d, t)) \<circ> nodeItem = (nodePayload :: 'a statusNode \<Rightarrow> _)"
    by (rule ext) (simp add: nodeItem_def nodePayload_def)
  ultimately show ?thesis by simp
qed

lemma append_result:
  assumes wf: "wellformed w as"
      and op: "x = Add d t \<or> x = Delete d t"
  shows "\<exists>w'. exec [x] w = Some w' \<and> wellformed w' (as @ [fresh (snd w)])
           \<and> seq (fst w') = (if x = Add d t then seq (fst w) + 1 else 0)
           \<and> count (fst w') = count (fst w) + 1
           \<and> tail (fst w') = fresh (snd w)
           \<and> cell (snd w') (fresh (snd w))
               = \<lparr>changeSeq = seq (fst w) + 1, changeTime = t, changeData = d, nxt = None\<rparr>
           \<and> map nodePayload (map (cell (snd w')) as) = map nodePayload (map (cell (snd w)) as)"
proof -
  obtain s st where w: "w = (s, st)" by (cases w)
  from wf w have l0: "lock s = 0" by (simp add: wellformed_def)
  let ?nd = "\<lparr>changeSeq = seq s + 1, changeTime = t, changeData = d, nxt = None\<rparr>"
  let ?st' = "appended ?nd st (tail s)"
  let ?s' = "s\<lparr>seq := (if x = Add d t then seq s + 1 else 0), tail := fresh st, count := count s + 1\<rparr>"
  have ex: "exec [x] w = Some (?s', ?st')"
    using op by (auto simp: w addStatus_appended [OF l0] addDeleteStatus_appended [OF l0])
  have nd: "nxt ?nd = None" by simp
  have s': "head ?s' = head s" "tail ?s' = fresh st" "lock ?s' = 0" by (simp_all add: l0)
  note A = wellformed_append [OF wf [unfolded w] nd s']
  show ?thesis
    using ex A(1) A(3) payload_of_item [OF A(2)] by (simp add: w)
qed

lemma drain_result:
  assumes wf: "wellformed w as"
  shows "\<exists>w'. getNodes w = Some ((nxt (cell (snd w) (head (fst w))), seq (fst w), count (fst w)), w')
           \<and> wellformed w' []
           \<and> seq (fst w') = seq (fst w) \<and> count (fst w') = 0
           \<and> head (fst w') = head (fst w) \<and> tail (fst w') = head (fst w')
           \<and> nxt (cell (snd w') (head (fst w'))) = None
           \<and> fresh (snd w') = fresh (snd w)
           \<and> (\<forall>k. readChain k (snd w') (nxt (cell (snd w) (head (fst w))))
                  = readChain k (snd w) (nxt (cell (snd w) (head (fst w)))))
           \<and> readChain (length as) (snd w') (nxt (cell (snd w) (head (fst w))))
               = Some (map (cell (snd w)) as)"
proof -
  obtain s st where w: "w = (s, st)" by (cases w)
  from wf w have l0: "lock s = 0" by (simp add: wellformed_def)
  note D = wellformed_drain [OF wf [unfolded w]]
  show ?thesis
    using D(1) D(2) D(3) by (simp add: w getNodes_unfold [OF l0])
qed

lemma exec_appends:
  "wellformed w as \<Longrightarrow>
   \<exists>w' bs. exec (map toOp apps) w = Some w' \<and> wellformed w' (as @ bs)
     \<and> length bs = length apps
     \<and> map nodePayload (map (cell (snd w')) (as @ bs))
         = map nodePayload (map (cell (snd w)) as) @ map snd apps"
proof (induction apps arbitrary: w as)
  case Nil
  then show ?case by simp
next
  case (Cons a apps)
  obtain del d t where a: "a = (del, d, t)" by (cases a)
  have "toOp a = Add d t \<or> toOp a = Delete d t" by (simp add: a)
  from append_result [OF Cons.prems this]
  obtain w1 where e1: "exec [toOp a] w = Some w1"
    and wf1: "wellformed w1 (as @ [fresh (snd w)])"
    and c1: "cell (snd w1) (fresh (snd w))
               = \<lparr>changeSeq = seq (fst w) + 1, changeTime = t, changeData = d, nxt = None\<rparr>"
    and p1: "map nodePayload (map (cell (snd w1)) as) = map nodePayload (map (cell (snd w)) as)"
    by blast
  from Cons.IH [OF wf1]
  obtain w' bs where e2: "exec (map toOp apps) w1 = Some w'"
    and wf2: "wellformed w' ((as @ [fresh (snd w)]) @ bs)"
    and len: "length bs = length apps"
    and p2: "map nodePayload (map (cell (snd w')) ((as @ [fresh (snd w)]) @ bs))
               = map nodePayload (map (cell (snd w1)) (as @ [fresh (snd w)])) @ map snd apps"
    by blast
  have "exec (map toOp (a # apps)) w = Option.bind (exec [toOp a] w) (exec (map toOp apps))"
    using exec_append [of "[toOp a]" "map toOp apps" w] by simp
  then have e: "exec (map toOp (a # apps)) w = Some w'"
    by (simp add: e1 e2)
  have p: "map nodePayload (map (cell (snd w')) (as @ fresh (snd w) # bs))
             = map nodePayload (map (cell (snd w)) as) @ map snd (a # apps)"
    using p2 p1 c1 by (simp add: a nodePayload_def)
  show ?case
    apply (rule exI [of _ w'], rule exI [of _ "fresh (snd w) # bs"])
    using e wf2 len p by simp
qed

lemma add_then_drain:
  assumes wf: "wellformed w []"
  shows "\<exists>w2 w3 n. addStatus d t w = Some w2 \<and> seq (fst w2) = seq (fst w) + 1
           \<and> getNodes w2 = Some ((n, seq (fst w) + 1, count (fst w) + 1), w3)
           \<and> readChain 1 (snd w3) n
               = Some [\<lparr>changeSeq = seq (fst w) + 1, changeTime = t, changeData = d, nxt = None\<rparr>]"
proof -
  from append_result [OF wf, of "Add d t" d t]
  obtain w2 where e: "exec [Add d t] w = Some w2"
    and wf2: "wellformed w2 [fresh (snd w)]"
    and q: "seq (fst w2) = seq (fst w) + 1" and c: "count (fst w2) = count (fst w) + 1"
    and nd: "cell (snd w2) (fresh (snd w))
               = \<lparr>changeSeq = seq (fst w) + 1, changeTime = t, changeData = d, nxt = None\<rparr>"
    by auto
  from e have a: "addStatus d t w = Some w2" by (simp split: Option.bind_splits)
  from drain_result [OF wf2] obtain w3 where
    g: "getNodes w2 = Some ((nxt (cell (snd w2) (head (fst w2))), seq (fst w2), count (fst w2)), w3)"
    and r: "readChain (length [fresh (snd w)]) (snd w3) (nxt (cell (snd w2) (head (fst w2))))
              = Some (map (cell (snd w2)) [fresh (snd w)])"
    by blast
  show ?thesis
    apply (rule exI [of _ w2], rule exI [of _ w3])
    apply (rule exI [of _ "nxt (cell (snd w2) (head (fst w2)))"])
    using a q g r c nd by simp
qed

lemma emptied_run:
  assumes "pre = [] \<or> last pre = Drain"
  shows "\<exists>w. exec pre (newStatusList st0) = Some w \<and> wellformed w []"
proof (cases "pre = []")
  case True
  then show ?thesis by (simp add: wellformed_new)
next
  case False
  with assms have pre: "pre = butlast pre @ [Drain]"
    by (metis append_butlast_last_id)
  from exec_wellformed [OF wellformed_new, of "butlast pre" st0]
  obtain wa as where ea: "exec (butlast pre) (newStatusList st0) = Some wa"
    and wfa: "wellformed wa as" by blast
  from drain_result [OF wfa] obtain wb r where g: "getNodes wa = Some (r, wb)"
    and wfb: "wellformed wb []" by blast
  have "exec (butlast pre @ [Drain]) (newStatusList st0) = Some wb"
    by (simp add: exec_append ea g)
  with pre wfb show ?thesis by metis
qed

text \<open>
  C4. Take a status list that is new or was just drained, and any sequence of appends
  (\<open>addStatus\<close> or \<open>addDeleteStatus\<close>) on it that ends with an \<open>addDeleteStatus\<close>.
  Every call returns, and the following \<open>getNodes\<close> reports the current seq 0 and
  returns a chain that holds exactly the appended payloads and times, in append order.
  An \<open>addStatus\<close> made after that \<open>addDeleteStatus\<close> numbers its node 1, be it made
  before the drain or after it; after the drain the node is the first of the next chain.
\<close>

theorem delete_then_drain:
  assumes "pre = [] \<or> last pre = Drain"
  shows "case exec (pre @ map toOp apps @ [Delete d t]) (newStatusList st0) of
           None \<Rightarrow> False
         | Some w \<Rightarrow>
             (case addStatus d2 t2 w of
                None \<Rightarrow> False
              | Some wa \<Rightarrow> changeSeq (cell (snd wa) (tail (fst wa))) = 1)
             \<and> (case getNodes w of
                  None \<Rightarrow> False
                | Some (r, w1) \<Rightarrow>
                    fst (snd r) = 0
                    \<and> map_option (map (\<lambda>nd. (changeData nd, changeTime nd)))
                          (readChain (Suc (length apps)) (snd w1) (fst r))
                        = Some (map snd apps @ [(d, t)])
                    \<and> (case addStatus d2 t2 w1 of
                          None \<Rightarrow> False
                        | Some w2 \<Rightarrow>
                            (case getNodes w2 of
                               None \<Rightarrow> False
                             | Some (r2, w3) \<Rightarrow>
                                 map_option (map changeSeq) (readChain 1 (snd w3) (fst r2))
                                   = Some [1])))"
proof -
  from emptied_run [OF assms] obtain w0 where
    e0: "exec pre (newStatusList st0) = Some w0" and wf0: "wellformed w0 []" by blast
  from exec_appends [OF wf0, of apps] obtain w1 bs where
    e1: "exec (map toOp apps) w0 = Some w1" and wf1: "wellformed w1 bs"
    and len: "length bs = length apps"
    and p1: "map nodePayload (map (cell (snd w1)) bs) = map snd apps"
    by auto
  from append_result [OF wf1, of "Delete d t" d t] obtain w2 where
    e2: "exec [Delete d t] w1 = Some w2" and wf2: "wellformed w2 (bs @ [fresh (snd w1)])"
    and q2: "seq (fst w2) = 0"
    and c2: "cell (snd w2) (fresh (snd w1))
               = \<lparr>changeSeq = seq (fst w1) + 1, changeTime = t, changeData = d, nxt = None\<rparr>"
    and p2: "map nodePayload (map (cell (snd w2)) bs) = map nodePayload (map (cell (snd w1)) bs)"
    by auto
  have run: "exec (pre @ map toOp apps @ [Delete d t]) (newStatusList st0) = Some w2"
    by (simp add: exec_append e0 e1 e2 del: exec.simps)
  from append_result [OF wf2, of "Add d2 t2" d2 t2] obtain wa where
    "exec [Add d2 t2] w2 = Some wa" and ta: "tail (fst wa) = fresh (snd w2)"
    and ca: "cell (snd wa) (fresh (snd w2))
               = \<lparr>changeSeq = seq (fst w2) + 1, changeTime = t2, changeData = d2, nxt = None\<rparr>"
    by auto
  then have direct: "addStatus d2 t2 w2 = Some wa" "changeSeq (cell (snd wa) (tail (fst wa))) = 1"
    by (simp_all add: q2 split: Option.bind_splits)
  from drain_result [OF wf2] obtain w3 where
    g: "getNodes w2 = Some ((nxt (cell (snd w2) (head (fst w2))), seq (fst w2), count (fst w2)), w3)"
    and wf3: "wellformed w3 []" and q3: "seq (fst w3) = seq (fst w2)"
    and r: "readChain (length (bs @ [fresh (snd w1)])) (snd w3) (nxt (cell (snd w2) (head (fst w2))))
              = Some (map (cell (snd w2)) (bs @ [fresh (snd w1)]))"
    by blast
  have chain: "map_option (map nodePayload)
                 (readChain (Suc (length apps)) (snd w3) (nxt (cell (snd w2) (head (fst w2)))))
               = Some (map snd apps @ [(d, t)])"
    using r len p1 p2 c2 by (simp add: nodePayload_def)
  from add_then_drain [OF wf3, of d2 t2] obtain w4 w5 n where
    a4: "addStatus d2 t2 w3 = Some w4"
    and g4: "getNodes w4 = Some ((n, seq (fst w3) + 1, count (fst w3) + 1), w5)"
    and r4: "readChain 1 (snd w5) n
               = Some [\<lparr>changeSeq = seq (fst w3) + 1, changeTime = t2, changeData = d2, nxt = None\<rparr>]"
    by blast
  have payload_eq: "nodePayload = (\<lambda>nd :: 'a statusNode. (changeData nd, changeTime nd))"
    by (rule ext) (simp add: nodePayload_def)
  show ?thesis
    using chain q2 q3 r4 direct(2) by (simp add: run g a4 g4 payload_eq direct(1))
qed

theorem delete_then_drain_witness:
  "map_option (\<lambda>(r, w). (r, map_option (map (\<lambda>nd. (changeSeq nd, changeData nd, changeTime nd)))
                              (readChain 2 (snd w) (fst r))))
     (Option.bind
        (exec ([Add (Some ''a'') 10, Drain] @ map toOp [(False, Some ''b'', 20)] @ [Delete (Some ''c'') 30])
           (newStatusList emptyStore))
        getNodes)
   = Some ((Some 2, 0, 2), Some [(2, Some ''b'', 20), (3, Some ''c'', 30)])"
  using delete_then_drain [where pre = "[Add (Some ''a'') 10, Drain]"
          and apps = "[(False, Some ''b'', 20)]" and d = "Some ''c''" and t = 30
          and ?st0.0 = emptyStore and ?d2.0 = None and ?t2.0 = 0]
  by (simp add: newStatusList_def alloc_def emptyStore_def addStatus_unfold addDeleteStatus_unfold
        getNodes_unfold numeral_2_eq_2)

lemma drain_frame:
  assumes wf: "wellformed w as"
  shows "\<exists>r w'. getNodes w = Some (r, w')
           \<and> (\<forall>x. x \<noteq> head (fst w) \<longrightarrow> cell (snd w') x = cell (snd w) x)"
proof -
  obtain s st where w: "w = (s, st)" by (cases w)
  from wf w have l0: "lock s = 0" by (simp add: wellformed_def)
  show ?thesis by (simp add: w getNodes_unfold [OF l0])
qed

lemma add_frame:
  assumes wf: "wellformed w []"
  shows "\<exists>w'. addStatus d t w = Some w'
           \<and> (\<forall>x. x \<noteq> head (fst w) \<longrightarrow> x < fresh (snd w) \<longrightarrow> cell (snd w') x = cell (snd w) x)"
proof -
  obtain s st where w: "w = (s, st)" by (cases w)
  from wf w have l0: "lock s = 0" and tl: "tail s = head s" by (simp_all add: wellformed_def)
  show ?thesis by (simp add: w addStatus_unfold [OF l0] tl)
qed

text \<open>
  C10. After any run of calls on a new status list, \<open>getNodes\<close> returns: it hands out
  the address its head pointed to with the current seq and count, and the chain read
  from that address is the chain that was there before the call, also after a later
  append. It leaves the list empty (count 0, the tail at the head, no successor of the
  head) and leaves seq as it was. An \<open>addStatus\<close> after the drain numbers its node
  with the seq from before the drain plus 1 (in \<open>uint32\<close> arithmetic), and that node
  is the chain of the next drain; an \<open>addDeleteStatus\<close> after the drain puts seq back
  to 0.
\<close>

theorem drain_keeps_seq:
  "case exec hist (newStatusList st0) of
     None \<Rightarrow> False
   | Some w \<Rightarrow>
       (case getNodes w of
          None \<Rightarrow> False
        | Some (r, w1) \<Rightarrow>
            r = (nxt (cell (snd w) (head (fst w))), seq (fst w), count (fst w))
            \<and> readChain k (snd w1) (fst r) = readChain k (snd w) (fst r)
            \<and> seq (fst w1) = seq (fst w) \<and> count (fst w1) = 0
            \<and> head (fst w1) = head (fst w) \<and> tail (fst w1) = head (fst w1)
            \<and> nxt (cell (snd w1) (head (fst w1))) = None
            \<and> (case addStatus d t w1 of
                  None \<Rightarrow> False
                | Some w2 \<Rightarrow>
                    seq (fst w2) = seq (fst w) + 1
                    \<and> readChain k (snd w2) (fst r) = readChain k (snd w) (fst r)
                    \<and> (case getNodes w2 of
                          None \<Rightarrow> False
                        | Some (r2, w3) \<Rightarrow>
                            fst (snd r2) = seq (fst w) + 1
                            \<and> readChain 1 (snd w3) (fst r2)
                                = Some [\<lparr>changeSeq = seq (fst w) + 1, changeTime = t,
                                         changeData = d, nxt = None\<rparr>]))
            \<and> (case addDeleteStatus d t w1 of
                  None \<Rightarrow> False
                | Some w2 \<Rightarrow> seq (fst w2) = 0))"
proof -
  from exec_wellformed [OF wellformed_new, of hist st0] obtain w as where
    e: "exec hist (newStatusList st0) = Some w" and wf: "wellformed w as" by blast
  let ?n = "nxt (cell (snd w) (head (fst w)))"
  from drain_result [OF wf] obtain w1 where
    g: "getNodes w = Some ((?n, seq (fst w), count (fst w)), w1)"
    and wf1: "wellformed w1 []"
    and q1: "seq (fst w1) = seq (fst w)" and c1: "count (fst w1) = 0"
    and h1: "head (fst w1) = head (fst w)" and t1: "tail (fst w1) = head (fst w1)"
    and n1: "nxt (cell (snd w1) (head (fst w1))) = None"
    and f1: "fresh (snd w1) = fresh (snd w)"
    and r1: "\<forall>k. readChain k (snd w1) ?n = readChain k (snd w) ?n"
    by blast
  from drain_frame [OF wf] g have fr1: "\<forall>x. x \<noteq> head (fst w) \<longrightarrow> cell (snd w1) x = cell (snd w) x"
    by simp
  from add_then_drain [OF wf1, of d t] obtain w2 w3 n2 where
    a2: "addStatus d t w1 = Some w2" and q2: "seq (fst w2) = seq (fst w1) + 1"
    and g2: "getNodes w2 = Some ((n2, seq (fst w1) + 1, count (fst w1) + 1), w3)"
    and r2: "readChain 1 (snd w3) n2
               = Some [\<lparr>changeSeq = seq (fst w1) + 1, changeTime = t, changeData = d, nxt = None\<rparr>]"
    by blast
  from add_frame [OF wf1, of d t] a2 have
    fr2: "\<forall>x. x \<noteq> head (fst w1) \<longrightarrow> x < fresh (snd w1) \<longrightarrow> cell (snd w2) x = cell (snd w1) x"
    by simp
  from wf have lk: "linked (snd w) (head (fst w)) as" and d: "distinct (head (fst w) # as)"
    and bound: "\<forall>a \<in> set (head (fst w) # as). a < fresh (snd w)"
    by (simp_all add: wellformed_def)
  have same: "\<forall>x \<in> set as. cell (snd w2) x = cell (snd w) x"
  proof
    fix x assume x: "x \<in> set as"
    with d have ne: "x \<noteq> head (fst w)" by auto
    from x bound have lt: "x < fresh (snd w)" by auto
    from fr2 ne lt have "cell (snd w2) x = cell (snd w1) x" by (simp add: h1 f1)
    with fr1 ne show "cell (snd w2) x = cell (snd w) x" by simp
  qed
  have det: "readChain k (snd w2) ?n = readChain k (snd w) ?n"
    by (rule readChain_detached [OF lk same])
  from append_result [OF wf1, of "Delete d t" d t] obtain w2' where
    "exec [Delete d t] w1 = Some w2'" and "seq (fst w2') = 0" by auto
  then have del: "addDeleteStatus d t w1 = Some w2'" "seq (fst w2') = 0"
    by (simp_all split: Option.bind_splits)
  show ?thesis
    using r1 q1 c1 h1 t1 n1 q2 det r2 del
    by (simp add: e g a2 g2)
qed

end
